theory Spec2Isabelle
  imports Main "HOL-Library.Sublist"
begin

section \<open>Python values used by both programs\<close>

text \<open>
  The two scripts \<^verbatim>\<open>fsw_file_namer_H.py\<close> (rows are sections, called variant A in the
  specification) and \<^verbatim>\<open>fsw_file_namer_V.py\<close> (columns are sections, variant B) keep
  their whole session in module-level globals that the Tk callbacks read and write. Each
  script becomes a record of those globals and one function per callback. A constant
  ending in \<open>_H\<close> or \<open>_V\<close> embeds the function of that name of the respective file.
\<close>

datatype py_error = IndexError | ValueError | OSError

text \<open>
  A callback either runs to its end or raises. The globals it has already written stay
  written in both cases, so both constructors carry the state.
\<close>

datatype 'a outcome = Returned 'a | Raised py_error 'a

fun state_of :: "'a outcome \<Rightarrow> 'a" where
  "state_of (Returned s) = s"
| "state_of (Raised e s) = s"

fun has_raised :: "'a outcome \<Rightarrow> bool" where
  "has_raised (Returned s) = False"
| "has_raised (Raised e s) = True"

abbreviation NL :: char where
  "NL \<equiv> CHR 0x0A"

abbreviation COMMA :: char where
  "COMMA \<equiv> CHR '',''"

text \<open>\<^verbatim>\<open>s.strip(chars)\<close>: every leading and every trailing character of \<open>chars\<close> goes.\<close>

definition py_strip :: "string \<Rightarrow> string \<Rightarrow> string" where
  "py_strip chars s =
     rev (dropWhile (\<lambda>c. c \<in> set chars) (rev (dropWhile (\<lambda>c. c \<in> set chars) s)))"

text \<open>\<^verbatim>\<open>s.split(d)\<close> for a one-character separator: never the empty list.\<close>

fun py_split :: "char \<Rightarrow> string \<Rightarrow> string list" where
  "py_split d [] = [[]]"
| "py_split d (c # cs) =
     (if c = d then [] # py_split d cs
      else (case py_split d cs of
              [] \<Rightarrow> [[c]]
            | w # ws \<Rightarrow> (c # w) # ws))"


text \<open>
  \<^verbatim>\<open>file.readlines()\<close> on the text of a file (after Python's newline translation):
  each line keeps its terminating newline, the last one may lack it.
\<close>

fun readlines :: "string \<Rightarrow> string list" where
  "readlines [] = []"
| "readlines (c # cs) =
     (if c = NL then [c] # readlines cs
      else (case readlines cs of
              [] \<Rightarrow> [[c]]
            | l # ls \<Rightarrow> (c # l) # ls))"

text \<open>\<^verbatim>\<open>file.writelines(lines)\<close> on a file opened with \<^verbatim>\<open>'w'\<close>: the new text of the file.\<close>

definition writelines :: "string list \<Rightarrow> string" where
  "writelines ls = concat ls"

text \<open>\<^verbatim>\<open>xs.index(x)\<close>: the first position of \<open>x\<close>, \<open>None\<close> for ValueError.\<close>

fun py_index :: "'a list \<Rightarrow> 'a \<Rightarrow> nat option" where
  "py_index [] x = None"
| "py_index (y # ys) x = (if y = x then Some 0 else map_option Suc (py_index ys x))"

text \<open>\<^verbatim>\<open>xs[c - 1]\<close> for a cursor \<open>c \<ge> 0\<close>: index \<open>-1\<close> is the last element; \<open>None\<close> for IndexError.\<close>

definition item_before :: "'a list \<Rightarrow> nat \<Rightarrow> 'a option" where
  "item_before xs c =
     (if xs = [] then None
      else if c = 0 then Some (last xs)
      else if c - 1 < length xs then Some (xs ! (c - 1))
      else None)"

text \<open>
  The title update of both \<^verbatim>\<open>on_enter\<close> callbacks:
  \<^verbatim>\<open>if textbox.get() != '': entered_text.set(f"{entered_text.get()}{sep}{textbox.get()}")\<close>,
  with \<^verbatim>\<open>_\<close> for the separator in the one file and \<^verbatim>\<open>connector\<close> in the other.
\<close>

definition accumulate :: "string \<Rightarrow> string \<Rightarrow> string \<Rightarrow> string" where
  "accumulate sep title token = (if token \<noteq> [] then title @ sep @ token else title)"

text \<open>What the user can do in either window.\<close>

datatype event =
    Click string
  | KeyIn string
  | Return
  | ToggleAlt
  | ToggleSave

section \<open>Variant A: fsw_file_namer_H.py\<close>

record session_H =
  lines_H :: "string list"
  current_line_H :: nat
  current_row_index_H :: nat
  colstr1_H :: string
  buttons_H :: "string list"
  entered_text_H :: string
  textbox_H :: string
  saveFlag_H :: bool
  altbuttonFlag_H :: bool
  file_H :: string
  writable_H :: bool
  quit_H :: bool

text \<open>
  \<open>lines_H\<close> is the list object shared by \<^verbatim>\<open>lines\<close> and the iterator \<^verbatim>\<open>current_line\<close>;
  \<open>current_line_H\<close> is the iterator's position in it. \<open>file_H\<close> is the text of
  \<^verbatim>\<open>data_collection_template.csv\<close> on disk and \<open>writable_H\<close> says whether opening it for
  writing succeeds (it does not while another program holds it open). \<open>quit_H\<close> records
  \<^verbatim>\<open>root.quit()\<close>.
\<close>

definition row_words_H :: "string \<Rightarrow> string list" where
  "row_words_H line = py_split COMMA (py_strip [COMMA, NL] line)"

definition update_buttons_H :: "session_H \<Rightarrow> session_H outcome" where
  "update_buttons_H s =
     (if current_line_H s < length (lines_H s) then
        (let s1 = s\<lparr>current_line_H := Suc (current_line_H s)\<rparr> in
         case row_words_H (lines_H s ! current_line_H s) of
           [] \<Rightarrow> Raised IndexError (s1\<lparr>buttons_H := []\<rparr>)
         | w # ws \<Rightarrow>
             Returned (s1\<lparr>buttons_H := ws, colstr1_H := w,
                          current_row_index_H := Suc (current_row_index_H s)\<rparr>))
      else Returned (s\<lparr>quit_H := True\<rparr>))"

definition save_word_H :: "session_H \<Rightarrow> string \<Rightarrow> session_H outcome" where
  "save_word_H s word =
     (let i = current_row_index_H s in
      if i < length (lines_H s) then
        (let s1 = s\<lparr>lines_H :=
                     (lines_H s)[i := py_strip [COMMA, NL] (lines_H s ! i) @ COMMA # word @ [NL]]\<rparr>
         in if writable_H s1 then Returned (s1\<lparr>file_H := writelines (lines_H s1)\<rparr>)
            else Raised OSError s1)
      else Raised IndexError s)"

definition on_enter_H :: "session_H \<Rightarrow> session_H outcome" where
  "on_enter_H s =
     (case (if saveFlag_H s then save_word_H s (textbox_H s) else Returned s) of
        Raised e s' \<Rightarrow> Raised e s'
      | Returned s1 \<Rightarrow>
          (let s2 = s1\<lparr>saveFlag_H := False\<rparr>;
               s3 = s2\<lparr>entered_text_H := accumulate ''_'' (entered_text_H s2) (textbox_H s2)\<rparr>
           in case update_buttons_H s3 of
                Raised e s' \<Rightarrow> Raised e s'
              | Returned s4 \<Rightarrow> Returned (s4\<lparr>textbox_H := []\<rparr>)))"

definition insert_word_H :: "session_H \<Rightarrow> string \<Rightarrow> session_H outcome" where
  "insert_word_H s word =
     (let s1 = s\<lparr>textbox_H := word\<rparr> in
      if altbuttonFlag_H s1 then on_enter_H s1 else Returned s1)"

text \<open>
  \<^verbatim>\<open>run_file_reader\<close> up to \<^verbatim>\<open>root.mainloop()\<close>. The seed of the title is the clock
  reading \<^verbatim>\<open>get_time_PC()\<close>, a parameter here.
\<close>

definition run_file_reader_H :: "string \<Rightarrow> bool \<Rightarrow> string \<Rightarrow> session_H outcome" where
  "run_file_reader_H text w seed =
     (let ls = readlines text;
          s0 = \<lparr>lines_H = ls, current_line_H = 0, current_row_index_H = 0,
                colstr1_H = [], buttons_H = [], entered_text_H = seed, textbox_H = [],
                saveFlag_H = False, altbuttonFlag_H = True, file_H = text,
                writable_H = w, quit_H = False\<rparr>
      in case ls of
           [] \<Rightarrow> Returned (s0\<lparr>colstr1_H := ''No more lines to read.''\<rparr>)
         | l # _ \<Rightarrow>
             (case row_words_H l of
                [] \<Rightarrow> Raised IndexError (s0\<lparr>current_line_H := 1\<rparr>)
              | t # ws \<Rightarrow>
                  Returned (s0\<lparr>current_line_H := 1, colstr1_H := t, buttons_H := ws\<rparr>)))"

text \<open>
  One event of the main loop. A button exists only for a word on display; Tk reports an
  exception of a callback and goes on with the state the callback left.
\<close>

definition dispatch_H :: "session_H \<Rightarrow> event \<Rightarrow> session_H outcome" where
  "dispatch_H s e =
     (case e of
        Click w \<Rightarrow> (if w \<in> set (buttons_H s) then insert_word_H s w else Returned s)
      | KeyIn t \<Rightarrow> Returned (s\<lparr>textbox_H := t\<rparr>)
      | Return \<Rightarrow> on_enter_H s
      | ToggleAlt \<Rightarrow> Returned (s\<lparr>altbuttonFlag_H := \<not> altbuttonFlag_H s\<rparr>)
      | ToggleSave \<Rightarrow> Returned (s\<lparr>saveFlag_H := \<not> saveFlag_H s\<rparr>))"

fun mainloop_H :: "session_H \<Rightarrow> event list \<Rightarrow> session_H" where
  "mainloop_H s [] = s"
| "mainloop_H s (e # es) =
     (if quit_H s then s else mainloop_H (state_of (dispatch_H s e)) es)"

section \<open>Variant B: fsw_file_namer_V.py\<close>

record session_V =
  og_data_V :: "string list list"
  transposed_data_V :: "string list list"
  current_row_index_V :: nat
  colstr1_V :: string
  buttons_V :: "string list"
  entered_text_V :: string
  textbox_V :: string
  altbuttonFlag_V :: bool
  connector_V :: string
  quit_V :: bool

text \<open>
  \<^verbatim>\<open>list(map(list, zip(*data)))\<close>: one row per column of \<open>data\<close>, as many as the shortest
  row of \<open>data\<close> has cells; no row at all for an empty \<open>data\<close>.
\<close>

fun shortest :: "'a list list \<Rightarrow> nat" where
  "shortest [] = 0"
| "shortest [r] = length r"
| "shortest (r # q # rs) = min (length r) (shortest (q # rs))"

definition zip_star :: "'a list list \<Rightarrow> 'a list list" where
  "zip_star data = map (\<lambda>c. map (\<lambda>r. r ! c) data) [0..<shortest data]"

text \<open>
  \<^verbatim>\<open>read_and_transpose_file\<close> after \<^verbatim>\<open>data = list(csv.reader(file))\<close>: the rows that the
  csv module parsed are the input here. It returns the transposed table and stores the
  rows in \<^verbatim>\<open>og_data\<close>.
\<close>

definition read_and_transpose_file :: "string list list \<Rightarrow> string list list \<times> string list list" where
  "read_and_transpose_file data = (zip_star data, data)"

definition create_word_buttons_V :: "session_V \<Rightarrow> string list \<Rightarrow> session_V" where
  "create_word_buttons_V s words = s\<lparr>buttons_V := buttons_V s @ filter (\<lambda>w. w \<noteq> []) words\<rparr>"

definition clear_buttons_V :: "session_V \<Rightarrow> session_V" where
  "clear_buttons_V s = s\<lparr>buttons_V := []\<rparr>"

text \<open>
  The \<^verbatim>\<open>while words[0] == ''\<close> loop of \<^verbatim>\<open>update_buttons\<close>, entered with
  \<^verbatim>\<open>words = transposed_data[c]\<close>: the cursor it stops at, and the row found there, or
  \<open>None\<close> when an index is out of range.
\<close>

function skip_rows :: "string list list \<Rightarrow> nat \<Rightarrow> nat \<times> string list option" where
  "skip_rows td c =
     (if c < length td then
        (case td ! c of
           [] \<Rightarrow> (c, None)
         | w # ws \<Rightarrow> if w = [] then skip_rows td (Suc c) else (c, Some (w # ws)))
      else (c, None))"
  by pat_completeness auto
termination
  by (relation "measure (\<lambda>(td, c). length td - c)") auto

declare skip_rows.simps [simp del]

definition update_buttons_V :: "session_V \<Rightarrow> session_V" where
  "update_buttons_V s =
     (if current_row_index_V s < length (transposed_data_V s) then
        (case skip_rows (transposed_data_V s) (current_row_index_V s) of
           (c, None) \<Rightarrow> (clear_buttons_V s)\<lparr>current_row_index_V := c, quit_V := True\<rparr>
         | (c, Some words) \<Rightarrow>
             (create_word_buttons_V ((clear_buttons_V s)\<lparr>colstr1_V := hd words\<rparr>) (tl words))
               \<lparr>current_row_index_V := Suc c\<rparr>)
      else s\<lparr>quit_V := True\<rparr>)"

definition handle_subsection :: "session_V \<Rightarrow> string list \<Rightarrow> string \<Rightarrow> session_V" where
  "handle_subsection s subsection_values word =
     create_word_buttons_V ((clear_buttons_V s)\<lparr>colstr1_V := word @ '' values''\<rparr>)
       subsection_values"

definition on_enter_V :: "session_V \<Rightarrow> session_V" where
  "on_enter_V s =
     (let s1 = s\<lparr>entered_text_V :=
                   accumulate (connector_V s) (entered_text_V s) (textbox_V s)\<rparr>
      in (update_buttons_V s1)\<lparr>textbox_V := []\<rparr>)"

text \<open>
  The \<^verbatim>\<open>for val in og_data[word_index][current_row_index:]\<close> loop of \<^verbatim>\<open>insert_word\<close>, over
  the cells still to visit: the values collected and the cursor, which the loop moves.
\<close>

fun collect_subsection ::
  "string list list \<Rightarrow> string list \<Rightarrow> nat \<Rightarrow> string list \<Rightarrow> (string list \<times> nat) outcome" where
  "collect_subsection og [] c acc = Returned (acc, c)"
| "collect_subsection og (val # vals) c acc =
     (case og of
        [] \<Rightarrow> Raised IndexError (acc, c)
      | header # _ \<Rightarrow>
          if c < length header then
            (if header ! c = []
             then collect_subsection og vals (Suc c) (if val \<noteq> [] then acc @ [val] else acc)
             else collect_subsection og vals c acc)
          else Raised IndexError (acc, c))"

text \<open>The end of \<^verbatim>\<open>insert_word\<close>, from \<^verbatim>\<open>textbox.insert(tk.END, word)\<close> on.\<close>

definition insert_word_tail :: "session_V \<Rightarrow> string \<Rightarrow> session_V" where
  "insert_word_tail s word =
     (let s1 = s\<lparr>textbox_V := textbox_V s @ word\<rparr> in
      if altbuttonFlag_V s1 then on_enter_V s1 else s1)"

text \<open>
  The first part of \<^verbatim>\<open>insert_word\<close>, after the text box is emptied: the test for a
  subsection and the loop. It yields \<^verbatim>\<open>subsection_values\<close> (empty when the test fails)
  and the session with the cursor where the loop left it.
\<close>

definition find_subsection :: "session_V \<Rightarrow> string \<Rightarrow> (string list \<times> session_V) outcome" where
  "find_subsection s word =
     (let c = current_row_index_V s; td = transposed_data_V s in
      if c < length td then
        (case td ! c of
           [] \<Rightarrow> Raised IndexError ([], s)
         | l # _ \<Rightarrow>
             if l = [] then
               (case item_before td c of
                  None \<Rightarrow> Raised IndexError ([], s)
                | Some section_row \<Rightarrow>
                    (case py_index section_row word of
                       None \<Rightarrow> Raised ValueError ([], s)
                     | Some word_index \<Rightarrow>
                         if word_index < length (og_data_V s) then
                           (case collect_subsection (og_data_V s)
                                   (drop c (og_data_V s ! word_index)) c [] of
                              Raised e (vs, c') \<Rightarrow> Raised e (vs, s\<lparr>current_row_index_V := c'\<rparr>)
                            | Returned (vs, c') \<Rightarrow> Returned (vs, s\<lparr>current_row_index_V := c'\<rparr>))
                         else Raised IndexError ([], s)))
             else Returned ([], s))
      else Returned ([], s))"

definition insert_word_V :: "session_V \<Rightarrow> string \<Rightarrow> session_V outcome" where
  "insert_word_V s word =
     (case find_subsection (s\<lparr>textbox_V := []\<rparr>) word of
        Raised e (vs, s') \<Rightarrow> Raised e s'
      | Returned (vs, s') \<Rightarrow>
          if vs \<noteq> [] then Returned (handle_subsection s' vs word)
          else Returned (insert_word_tail s' word))"

text \<open>\<^verbatim>\<open>run_file_reader\<close> up to \<^verbatim>\<open>root.mainloop()\<close>, on the parsed rows of the file.\<close>

definition run_file_reader_V :: "string list list \<Rightarrow> string \<Rightarrow> session_V" where
  "run_file_reader_V data seed =
     (let s0 = \<lparr>og_data_V = snd (read_and_transpose_file data),
                transposed_data_V = fst (read_and_transpose_file data),
                current_row_index_V = 0, colstr1_V = [], buttons_V = [],
                entered_text_V = seed, textbox_V = [], altbuttonFlag_V = True,
                connector_V = '' - '', quit_V = False\<rparr>;
          s1 = (case transposed_data_V s0 of
                  [] \<Rightarrow> s0\<lparr>colstr1_V := ''No more lines to read.''\<rparr>
                | first_words # _ \<Rightarrow>
                    (case first_words of
                       [] \<Rightarrow> s0\<lparr>colstr1_V := ''No more lines to read.''\<rparr>
                     | t # ws \<Rightarrow> create_word_buttons_V (s0\<lparr>colstr1_V := t\<rparr>) ws))
      in s1\<lparr>current_row_index_V := Suc (current_row_index_V s1)\<rparr>)"

definition dispatch_V :: "session_V \<Rightarrow> event \<Rightarrow> session_V outcome" where
  "dispatch_V s e =
     (case e of
        Click w \<Rightarrow> (if w \<in> set (buttons_V s) then insert_word_V s w else Returned s)
      | KeyIn t \<Rightarrow> Returned (s\<lparr>textbox_V := t\<rparr>)
      | Return \<Rightarrow> Returned (on_enter_V s)
      | ToggleAlt \<Rightarrow> Returned (s\<lparr>altbuttonFlag_V := \<not> altbuttonFlag_V s\<rparr>)
      | ToggleSave \<Rightarrow> Returned s)"

fun mainloop_V :: "session_V \<Rightarrow> event list \<Rightarrow> session_V" where
  "mainloop_V s [] = s"
| "mainloop_V s (e # es) =
     (if quit_V s then s else mainloop_V (state_of (dispatch_V s e)) es)"

section \<open>What a session commits\<close>

text \<open>
  An event commits a token when it runs \<^verbatim>\<open>on_enter\<close> past its title update: the token is
  the text that \<^verbatim>\<open>on_enter\<close> finds in the text box. A click commits the clicked word only
  in Alt Button mode (and, in the second program, only when no subsection opens); the
  Enter key commits whatever the box holds. The turns of a session pair each committed
  token with the label of the section on display when it was committed.
\<close>

definition committed_H :: "session_H \<Rightarrow> event \<Rightarrow> string option" where
  "committed_H s e =
     (case e of
        Click w \<Rightarrow>
          (if w \<in> set (buttons_H s) \<and> altbuttonFlag_H s
              \<and> \<not> has_raised (on_enter_H (s\<lparr>textbox_H := w\<rparr>))
           then Some w else None)
      | KeyIn t \<Rightarrow> None
      | Return \<Rightarrow> (if has_raised (on_enter_H s) then None else Some (textbox_H s))
      | ToggleAlt \<Rightarrow> None
      | ToggleSave \<Rightarrow> None)"

fun turns_H :: "session_H \<Rightarrow> event list \<Rightarrow> (string \<times> string) list" where
  "turns_H s [] = []"
| "turns_H s (e # es) =
     (if quit_H s then []
      else (case committed_H s e of None \<Rightarrow> [] | Some t \<Rightarrow> [(colstr1_H s, t)])
           @ turns_H (state_of (dispatch_H s e)) es)"

definition committed_V :: "session_V \<Rightarrow> event \<Rightarrow> string option" where
  "committed_V s e =
     (case e of
        Click w \<Rightarrow>
          (if w \<in> set (buttons_V s) \<and> altbuttonFlag_V s then
             (case find_subsection (s\<lparr>textbox_V := []\<rparr>) w of
                Raised e r \<Rightarrow> None
              | Returned (vs, s') \<Rightarrow> if vs = [] then Some w else None)
           else None)
      | KeyIn t \<Rightarrow> None
      | Return \<Rightarrow> Some (textbox_V s)
      | ToggleAlt \<Rightarrow> None
      | ToggleSave \<Rightarrow> None)"

fun turns_V :: "session_V \<Rightarrow> event list \<Rightarrow> (string \<times> string) list" where
  "turns_V s [] = []"
| "turns_V s (e # es) =
     (if quit_V s then []
      else (case committed_V s e of None \<Rightarrow> [] | Some t \<Rightarrow> [(colstr1_V s, t)])
           @ turns_V (state_of (dispatch_V s e)) es)"

section \<open>Sub-options as the documentation describes them\<close>

text \<open>
  The module docstring of the second program: words in columns without a section title
  are sub-options of the preceding titled section, and clicking an option opens the folder
  of the sub-options in its row. For a cursor \<open>c\<close> just behind the column of a section,
  \<open>anonymous_run\<close> counts the columns without a title that follow directly, and
  \<open>sub_options\<close> lists the non-empty cells that row \<open>i\<close> of the table has in them. These two
  follow the documentation, not the code; the code is compared with them below.
\<close>

definition anonymous_run :: "string list \<Rightarrow> nat \<Rightarrow> nat" where
  "anonymous_run header c = length (takeWhile (\<lambda>h. h = []) (drop c header))"

definition sub_options :: "string list list \<Rightarrow> nat \<Rightarrow> nat \<Rightarrow> string list" where
  "sub_options og i c =
     filter (\<lambda>x. x \<noteq> []) (take (anonymous_run (hd og) c) (drop c (og ! i)))"

section \<open>Lines as a file holds them\<close>

text \<open>
  What \<^verbatim>\<open>readlines\<close> can return: no line is empty, a newline stands only at the end of a
  line, and every line but the last ends with one.
\<close>

definition line_ok :: "string \<Rightarrow> bool" where
  "line_ok l = (l \<noteq> [] \<and> NL \<notin> set (butlast l))"

fun lines_ok :: "string list \<Rightarrow> bool" where
  "lines_ok [] = True"
| "lines_ok [l] = line_ok l"
| "lines_ok (l # k # ls) = (line_ok l \<and> last l = NL \<and> lines_ok (k # ls))"

section \<open>Example inputs\<close>

text \<open>
  The file of the first program with the rows \<^verbatim>\<open>Freq,2.4,5.1\<close> and \<^verbatim>\<open>Mod,OFDM,QAM\<close>, and
  the parsed rows of a file of the second program with the columns \<^verbatim>\<open>Tests\<close> and
  \<^verbatim>\<open>Freq\<close> followed by two columns without a header.
\<close>

definition freq_mod_file :: string where
  "freq_mod_file = ''Freq,2.4,5.1'' @ [NL] @ ''Mod,OFDM,QAM'' @ [NL]"

definition freq_mod_session :: session_H where
  "freq_mod_session = state_of (run_file_reader_H freq_mod_file True ''seed'')"

definition tests_freq_rows :: "string list list" where
  "tests_freq_rows =
     [[''Tests'', ''Freq'', [], []],
      [''PSD'', ''2.4'', ''2412'', ''2437''],
      [''PWR'', ''5.1'', ''5180'', []],
      [''OBW'', ''5.7'', [], []]]"

definition tests_freq_session :: session_V where
  "tests_freq_session = run_file_reader_V tests_freq_rows ''seed''"

text \<open>
  The first session after the user has ticked \<^verbatim>\<open>Save Word?\<close> and typed \<^verbatim>\<open>9\<close>; a file whose
  second row has an empty cell between two words; and rows in which two options of the
  section \<^verbatim>\<open>Freq\<close> have the same text but different sub-options.
\<close>

definition saving_session :: session_H where
  "saving_session = mainloop_H freq_mod_session [ToggleSave, KeyIn ''9'']"


definition duplicate_rows :: "string list list" where
  "duplicate_rows =
     [[''Freq'', [], []],
      [''2.4'', ''2412'', ''2437''],
      [''2.4'', ''2462'', []]]"

definition duplicate_session :: session_V where
  "duplicate_session = run_file_reader_V duplicate_rows ''seed''"

text \<open>The second session after Enter on the empty text box: \<^verbatim>\<open>Freq\<close> is on display.\<close>

definition freq_section :: session_V where
  "freq_section = mainloop_V tests_freq_session [Return]"

text \<open>A file of the first program that begins with a blank line.\<close>

definition blank_row_session :: session_H where
  "blank_row_session =
     state_of (run_file_reader_H ([NL] @ ''Mod,OFDM'' @ [NL]) True ''seed'')"

text \<open>
  Two sessions of the first program with \<^verbatim>\<open>Save Word?\<close> ticked and a word typed: one on a
  file that cannot be opened for writing, one on an empty file, which has no current row.
\<close>

definition locked_session :: session_H where
  "locked_session =
     mainloop_H (state_of (run_file_reader_H freq_mod_file False ''seed''))
       [ToggleSave, KeyIn ''9'']"

definition empty_file_session :: session_H where
  "empty_file_session =
     mainloop_H (state_of (run_file_reader_H [] True ''seed'')) [ToggleSave, KeyIn ''x'']"

section \<open>Basic facts about the callbacks\<close>

lemma py_split_not_Nil: "py_split d s \<noteq> []"
  by (induction s) (auto split: list.splits)

lemma row_words_H_not_Nil: "row_words_H l \<noteq> []"
  by (simp add: row_words_H_def py_split_not_Nil)

lemma update_buttons_H_cases:
  "update_buttons_H s =
     (if current_line_H s < length (lines_H s) then
        Returned (s\<lparr>current_line_H := Suc (current_line_H s),
                    buttons_H := tl (row_words_H (lines_H s ! current_line_H s)),
                    colstr1_H := hd (row_words_H (lines_H s ! current_line_H s)),
                    current_row_index_H := Suc (current_row_index_H s)\<rparr>)
      else Returned (s\<lparr>quit_H := True\<rparr>))"
  using row_words_H_not_Nil [of "lines_H s ! current_line_H s"]
  by (cases "row_words_H (lines_H s ! current_line_H s)") (simp_all add: update_buttons_H_def Let_def)

lemma save_word_H_raises:
  "has_raised (save_word_H s w) \<longleftrightarrow>
     \<not> (current_row_index_H s < length (lines_H s) \<and> writable_H s)"
  by (simp add: save_word_H_def Let_def)

lemma save_word_H_keeps:
  "entered_text_H (state_of (save_word_H s w)) = entered_text_H s"
  "textbox_H (state_of (save_word_H s w)) = textbox_H s"
  "saveFlag_H (state_of (save_word_H s w)) = saveFlag_H s"
  "current_line_H (state_of (save_word_H s w)) = current_line_H s"
  "length (lines_H (state_of (save_word_H s w))) = length (lines_H s)"
  "quit_H (state_of (save_word_H s w)) = quit_H s"
  "colstr1_H (state_of (save_word_H s w)) = colstr1_H s"
  by (simp_all add: save_word_H_def Let_def)

lemma on_enter_H_raises:
  "has_raised (on_enter_H s) \<longleftrightarrow> saveFlag_H s \<and> has_raised (save_word_H s (textbox_H s))"
  by (cases "save_word_H s (textbox_H s)")
     (simp_all add: on_enter_H_def update_buttons_H_cases Let_def)

lemma on_enter_H_title:
  "entered_text_H (state_of (on_enter_H s)) =
     (if has_raised (on_enter_H s) then entered_text_H s
      else accumulate ''_'' (entered_text_H s) (textbox_H s))"
proof (cases "saveFlag_H s")
  case False
  then show ?thesis
    by (simp add: on_enter_H_def update_buttons_H_cases Let_def)
next
  case True
  then show ?thesis
    using save_word_H_keeps(1,2) [of s "textbox_H s"]
    by (cases "save_word_H s (textbox_H s)")
       (simp_all add: on_enter_H_def update_buttons_H_cases Let_def)
qed


lemma update_buttons_V_keeps:
  "entered_text_V (update_buttons_V s) = entered_text_V s"
  "connector_V (update_buttons_V s) = connector_V s"
  "altbuttonFlag_V (update_buttons_V s) = altbuttonFlag_V s"
  "textbox_V (update_buttons_V s) = textbox_V s"
  "og_data_V (update_buttons_V s) = og_data_V s"
  "transposed_data_V (update_buttons_V s) = transposed_data_V s"
  by (simp_all add: update_buttons_V_def clear_buttons_V_def create_word_buttons_V_def
        split: prod.splits option.splits)

lemma on_enter_V_title:
  "entered_text_V (on_enter_V s) = accumulate (connector_V s) (entered_text_V s) (textbox_V s)"
  by (simp add: on_enter_V_def Let_def update_buttons_V_keeps)

lemma on_enter_V_keeps:
  "connector_V (on_enter_V s) = connector_V s"
  "altbuttonFlag_V (on_enter_V s) = altbuttonFlag_V s"
  "og_data_V (on_enter_V s) = og_data_V s"
  "transposed_data_V (on_enter_V s) = transposed_data_V s"
  by (simp_all add: on_enter_V_def Let_def update_buttons_V_keeps)

lemma find_subsection_keeps:
  "entered_text_V (snd (state_of (find_subsection s w))) = entered_text_V s"
  "connector_V (snd (state_of (find_subsection s w))) = connector_V s"
  "altbuttonFlag_V (snd (state_of (find_subsection s w))) = altbuttonFlag_V s"
  "textbox_V (snd (state_of (find_subsection s w))) = textbox_V s"
  "og_data_V (snd (state_of (find_subsection s w))) = og_data_V s"
  "transposed_data_V (snd (state_of (find_subsection s w))) = transposed_data_V s"
  "quit_V (snd (state_of (find_subsection s w))) = quit_V s"
  "colstr1_V (snd (state_of (find_subsection s w))) = colstr1_V s"
  "buttons_V (snd (state_of (find_subsection s w))) = buttons_V s"
  by (simp_all add: find_subsection_def Let_def
        split: list.splits option.splits outcome.splits prod.splits)

lemma dispatch_H_title:
  "entered_text_H (state_of (dispatch_H s e)) =
     (case committed_H s e of
        None \<Rightarrow> entered_text_H s
      | Some t \<Rightarrow> accumulate ''_'' (entered_text_H s) t)"
proof (cases e)
  case (Click w)
  then show ?thesis
    using on_enter_H_title [of "s\<lparr>textbox_H := w\<rparr>"]
    by (simp add: dispatch_H_def committed_H_def insert_word_H_def Let_def)
next
  case Return
  then show ?thesis
    using on_enter_H_title [of s]
    by (simp add: dispatch_H_def committed_H_def)
qed (simp_all add: dispatch_H_def committed_H_def)

lemma dispatch_V_title:
  "entered_text_V (state_of (dispatch_V s e)) =
     (case committed_V s e of
        None \<Rightarrow> entered_text_V s
      | Some t \<Rightarrow> accumulate (connector_V s) (entered_text_V s) t)"
proof (cases e)
  case (Click w)
  show ?thesis
  proof (cases "find_subsection (s\<lparr>textbox_V := []\<rparr>) w")
    case (Returned p)
    obtain vs s' where p: "p = (vs, s')" by (cases p)
    have k: "entered_text_V s' = entered_text_V s" "connector_V s' = connector_V s"
      "altbuttonFlag_V s' = altbuttonFlag_V s" "textbox_V s' = []"
      using find_subsection_keeps(1,2,3,4) [of "s\<lparr>textbox_V := []\<rparr>" w] Returned p by simp_all
    show ?thesis
      using Click Returned p k
      by (simp add: dispatch_V_def committed_V_def insert_word_V_def insert_word_tail_def
            handle_subsection_def clear_buttons_V_def create_word_buttons_V_def
            on_enter_V_title Let_def)
  next
    case (Raised x p)
    obtain vs s' where p: "p = (vs, s')" by (cases p)
    have k: "entered_text_V s' = entered_text_V s"
      using find_subsection_keeps(1) [of "s\<lparr>textbox_V := []\<rparr>" w] Raised p by simp
    show ?thesis
      using Click Raised p k
      by (simp add: dispatch_V_def committed_V_def insert_word_V_def)
  qed
next
  case Return
  then show ?thesis
    by (simp add: dispatch_V_def committed_V_def on_enter_V_title)
qed (simp_all add: dispatch_V_def committed_V_def)

lemma foldl_accumulate:
  "foldl (accumulate sep) t toks = t @ concat (map (\<lambda>x. sep @ x) (filter (\<lambda>x. x \<noteq> []) toks))"
  by (induction toks arbitrary: t) (simp_all add: accumulate_def)

lemma dispatch_V_connector: "connector_V (state_of (dispatch_V s e)) = connector_V s"
proof (cases e)
  case (Click w)
  show ?thesis
  proof (cases "find_subsection (s\<lparr>textbox_V := []\<rparr>) w")
    case (Returned p)
    obtain vs s' where p: "p = (vs, s')" by (cases p)
    have k: "connector_V s' = connector_V s"
      using find_subsection_keeps(2) [of "s\<lparr>textbox_V := []\<rparr>" w] Returned p by simp
    show ?thesis
      using Click Returned p k
      by (simp add: dispatch_V_def insert_word_V_def insert_word_tail_def
            handle_subsection_def clear_buttons_V_def create_word_buttons_V_def
            on_enter_V_keeps Let_def)
  next
    case (Raised x p)
    obtain vs s' where p: "p = (vs, s')" by (cases p)
    have k: "connector_V s' = connector_V s"
      using find_subsection_keeps(2) [of "s\<lparr>textbox_V := []\<rparr>" w] Raised p by simp
    show ?thesis
      using Click Raised p k
      by (simp add: dispatch_V_def insert_word_V_def)
  qed
qed (simp_all add: dispatch_V_def on_enter_V_keeps)

lemma mainloop_V_connector: "connector_V (mainloop_V s evs) = connector_V s"
  by (induction evs arbitrary: s) (simp_all add: dispatch_V_connector)

lemma mainloop_H_title:
  "entered_text_H (mainloop_H s evs) =
     foldl (accumulate ''_'') (entered_text_H s) (map snd (turns_H s evs))"
proof (induction evs arbitrary: s)
  case Nil
  show ?case by simp
next
  case (Cons e es)
  show ?case
  proof (cases "quit_H s")
    case True
    then show ?thesis by simp
  next
    case False
    then show ?thesis
      using Cons.IH [of "state_of (dispatch_H s e)"] dispatch_H_title [of s e]
      by (cases "committed_H s e") simp_all
  qed
qed

lemma mainloop_V_title:
  "entered_text_V (mainloop_V s evs) =
     foldl (accumulate (connector_V s)) (entered_text_V s) (map snd (turns_V s evs))"
proof (induction evs arbitrary: s)
  case Nil
  show ?case by simp
next
  case (Cons e es)
  show ?case
  proof (cases "quit_V s")
    case True
    then show ?thesis by simp
  next
    case False
    then show ?thesis
      using Cons.IH [of "state_of (dispatch_V s e)"] dispatch_V_title [of s e]
        dispatch_V_connector [of s e]
      by (cases "committed_V s e") simp_all
  qed
qed

lemma mainloop_H_append: "mainloop_H s (evs @ rest) = mainloop_H (mainloop_H s evs) rest"
proof (induction evs arbitrary: s)
  case Nil
  show ?case by simp
next
  case (Cons e es)
  then show ?case by (cases rest) simp_all
qed

lemma mainloop_V_append: "mainloop_V s (evs @ rest) = mainloop_V (mainloop_V s evs) rest"
proof (induction evs arbitrary: s)
  case Nil
  show ?case by simp
next
  case (Cons e es)
  then show ?case by (cases rest) simp_all
qed

lemma accumulate_prefix: "prefix t (accumulate sep t tok)"
  by (simp add: accumulate_def)

lemma accumulate_strict: "strict_prefix t (accumulate sep t tok) \<longleftrightarrow> tok \<noteq> []"
  by (auto simp: accumulate_def strict_prefix_def)

lemma foldl_accumulate_prefix: "prefix t (foldl (accumulate sep) t toks)"
  by (simp add: foldl_accumulate)

lemma skip_rows_ge: "c \<le> fst (skip_rows td c)"
proof (induction td c rule: skip_rows.induct)
  case (1 td c)
  show ?case
  proof (cases "c < length td")
    case False
    then show ?thesis by (simp add: skip_rows.simps [of td c])
  next
    case True
    show ?thesis
    proof (cases "td ! c")
      case Nil
      with True show ?thesis by (simp add: skip_rows.simps [of td c])
    next
      case (Cons w ws)
      show ?thesis
      proof (cases "w = []")
        case True
        with \<open>c < length td\<close> Cons "1.IH" [of w ws] show ?thesis
          by (simp add: skip_rows.simps [of td c])
      next
        case False
        with \<open>c < length td\<close> Cons show ?thesis
          by (simp add: skip_rows.simps [of td c])
      qed
    qed
  qed
qed

lemma collect_subsection_ge: "c \<le> snd (state_of (collect_subsection og vals c acc))"
proof (induction vals arbitrary: c acc)
  case Nil
  show ?case by simp
next
  case (Cons val vals)
  note IH = Cons.IH
  show ?case
  proof (cases og)
    case Nil
    then show ?thesis by simp
  next
    case (Cons header rest)
    have "Suc c \<le> snd (state_of (collect_subsection og vals (Suc c) (acc @ [val])))"
      "Suc c \<le> snd (state_of (collect_subsection og vals (Suc c) acc))"
      "c \<le> snd (state_of (collect_subsection og vals c acc))"
      by (rule IH)+
    with Cons show ?thesis by auto
  qed
qed

lemma collect_subsection_geD:
  "collect_subsection og vals c acc = Returned (vs, c') \<Longrightarrow> c \<le> c'"
  "collect_subsection og vals c acc = Raised e (vs, c') \<Longrightarrow> c \<le> c'"
  using collect_subsection_ge [of c og vals acc] by simp_all

lemma find_subsection_cursor:
  "current_row_index_V s \<le> current_row_index_V (snd (state_of (find_subsection s w)))"
  by (auto simp: find_subsection_def Let_def dest: collect_subsection_geD
      split: list.splits option.splits outcome.splits prod.splits)

lemma update_buttons_V_advances:
  "quit_V (update_buttons_V s) \<or> current_row_index_V s < current_row_index_V (update_buttons_V s)"
  using skip_rows_ge [of "current_row_index_V s" "transposed_data_V s"]
  by (auto simp: update_buttons_V_def clear_buttons_V_def create_word_buttons_V_def
        split: prod.splits option.splits)

lemma on_enter_V_advances:
  "quit_V (on_enter_V s) \<or> current_row_index_V s < current_row_index_V (on_enter_V s)"
  using update_buttons_V_advances
    [of "s\<lparr>entered_text_V := accumulate (connector_V s) (entered_text_V s) (textbox_V s)\<rparr>"]
  by (simp add: on_enter_V_def Let_def)

lemma on_enter_H_advances:
  "\<not> has_raised (on_enter_H s) \<Longrightarrow>
     quit_H (state_of (on_enter_H s)) \<or> current_line_H s < current_line_H (state_of (on_enter_H s))"
  using save_word_H_keeps(4) [of s "textbox_H s"]
  by (cases "saveFlag_H s"; cases "save_word_H s (textbox_H s)")
     (simp_all add: on_enter_H_def update_buttons_H_cases Let_def)

lemma committed_H_advances:
  "committed_H s e \<noteq> None \<Longrightarrow>
     quit_H (state_of (dispatch_H s e)) \<or> current_line_H s < current_line_H (state_of (dispatch_H s e))"
proof (cases e)
  case (Click w)
  assume "committed_H s e \<noteq> None"
  with Click show ?thesis
    using on_enter_H_advances [of "s\<lparr>textbox_H := w\<rparr>"]
    by (simp add: committed_H_def dispatch_H_def insert_word_H_def Let_def split: if_splits)
next
  case Return
  assume "committed_H s e \<noteq> None"
  with Return show ?thesis
    using on_enter_H_advances [of s]
    by (simp add: committed_H_def dispatch_H_def split: if_splits)
qed (simp_all add: committed_H_def)

lemma committed_V_advances:
  "committed_V s e \<noteq> None \<Longrightarrow>
     quit_V (state_of (dispatch_V s e)) \<or> current_row_index_V s < current_row_index_V (state_of (dispatch_V s e))"
proof (cases e)
  case (Click w)
  assume a: "committed_V s e \<noteq> None"
  show ?thesis
  proof (cases "find_subsection (s\<lparr>textbox_V := []\<rparr>) w")
    case (Raised x p)
    with a Click show ?thesis by (simp add: committed_V_def split: if_splits)
  next
    case (Returned p)
    obtain vs s' where p: "p = (vs, s')" by (cases p)
    have k: "current_row_index_V s \<le> current_row_index_V s'" "altbuttonFlag_V s' = altbuttonFlag_V s"
      using find_subsection_cursor [of "s\<lparr>textbox_V := []\<rparr>" w]
        find_subsection_keeps(3) [of "s\<lparr>textbox_V := []\<rparr>" w] Returned p by simp_all
    from a Click Returned p have c: "w \<in> set (buttons_V s)" "altbuttonFlag_V s" "vs = []"
      by (simp_all add: committed_V_def split: if_splits)
    have "quit_V (on_enter_V (s'\<lparr>textbox_V := textbox_V s' @ w\<rparr>)) \<or>
          current_row_index_V s' < current_row_index_V (on_enter_V (s'\<lparr>textbox_V := textbox_V s' @ w\<rparr>))"
      using on_enter_V_advances [of "s'\<lparr>textbox_V := textbox_V s' @ w\<rparr>"] by simp
    with k c Click Returned p show ?thesis
      by (auto simp: dispatch_V_def insert_word_V_def insert_word_tail_def Let_def)
  qed
next
  case Return
  then show ?thesis
    using on_enter_V_advances [of s] by (simp add: dispatch_V_def)
qed (simp_all add: committed_V_def)

lemma concat_turns:
  "concat (map (\<lambda>x. sep @ x) (filter (\<lambda>x. x \<noteq> []) (map snd ts))) =
   concat (map (\<lambda>(label, token). if token = [] then [] else sep @ token) ts)"
  by (induction ts) auto



lemma py_index_first:
  "py_index xs x = Some i \<longleftrightarrow> i < length xs \<and> xs ! i = x \<and> (\<forall>k<i. xs ! k \<noteq> x)"
proof (induction xs arbitrary: i)
  case Nil
  show ?case by simp
next
  case (Cons y ys)
  show ?case
  proof (cases "y = x")
    case True
    then show ?thesis by (cases i) auto
  next
    case False
    show ?thesis
    proof (cases i)
      case 0
      with False show ?thesis by auto
    next
      case (Suc j)
      have "(\<forall>k<Suc j. (y # ys) ! k \<noteq> x) \<longleftrightarrow> (\<forall>k<j. ys ! k \<noteq> x)"
        using False by (auto simp: less_Suc_eq_0_disj)
      with False Suc Cons.IH [of j] show ?thesis by auto
    qed
  qed
qed



lemma py_split_no_delim: "w \<in> set (py_split d s) \<Longrightarrow> d \<notin> set w"
proof (induction s arbitrary: w)
  case Nil
  then show ?case by simp
next
  case (Cons c cs)
  obtain v vs where vs: "py_split d cs = v # vs"
    using py_split_not_Nil [of d cs] by (cases "py_split d cs") auto
  with Cons show ?case by (auto split: if_splits)
qed

lemma rstrip_decomp: "m = rev (dropWhile P (rev m)) @ rev (takeWhile P (rev m))"
proof -
  have "rev (takeWhile P (rev m) @ dropWhile P (rev m)) = rev (rev m)"
    by (simp only: takeWhile_dropWhile_id)
  then show ?thesis by (simp only: rev_append rev_rev_ident)
qed

lemma py_strip_decomp:
  "\<exists>pre suf. s = pre @ py_strip cs s @ suf \<and> set pre \<subseteq> set cs \<and> set suf \<subseteq> set cs"
proof -
  let ?P = "\<lambda>c. c \<in> set cs"
  let ?m = "dropWhile ?P s"
  have 1: "s = takeWhile ?P s @ ?m" by simp
  have 2: "?m = py_strip cs s @ rev (takeWhile ?P (rev ?m))"
    unfolding py_strip_def by (rule rstrip_decomp)
  have 3: "s = takeWhile ?P s @ py_strip cs s @ rev (takeWhile ?P (rev ?m))"
    using 1 2 by metis
  have "set (takeWhile ?P s) \<subseteq> set cs" "set (rev (takeWhile ?P (rev ?m))) \<subseteq> set cs"
    by (auto dest: set_takeWhileD)
  with 3 show ?thesis by blast
qed

lemma py_strip_ends:
  "py_strip cs s \<noteq> [] \<Longrightarrow> hd (py_strip cs s) \<notin> set cs \<and> last (py_strip cs s) \<notin> set cs"
proof -
  let ?P = "\<lambda>c. c \<in> set cs"
  let ?m = "dropWhile ?P s"
  let ?r = "dropWhile ?P (rev ?m)"
  assume a: "py_strip cs s \<noteq> []"
  then have r: "?r \<noteq> []" by (simp add: py_strip_def)
  have m: "?m \<noteq> []" using r by (cases ?m) simp_all
  have l: "last (py_strip cs s) = hd ?r" using r by (simp add: py_strip_def last_rev)
  have lr: "\<not> ?P (hd ?r)" using r hd_dropWhile by blast
  have "?m = rev ?r @ rev (takeWhile ?P (rev ?m))" by (rule rstrip_decomp)
  then have "hd ?m = hd (rev ?r @ rev (takeWhile ?P (rev ?m)))" by simp
  also have "\<dots> = hd (rev ?r)" using r by simp
  finally have h: "hd (py_strip cs s) = hd ?m" by (simp add: py_strip_def)
  have "\<not> ?P (hd ?m)" using m hd_dropWhile by blast
  with h l lr show ?thesis by simp
qed

lemma py_strip_id:
  "s \<noteq> [] \<Longrightarrow> hd s \<notin> set cs \<Longrightarrow> last s \<notin> set cs \<Longrightarrow> py_strip cs s = s"
proof -
  assume a: "s \<noteq> []" "hd s \<notin> set cs" "last s \<notin> set cs"
  then have 1: "dropWhile (\<lambda>c. c \<in> set cs) s = s" by (cases s) auto
  have "rev s \<noteq> []" "hd (rev s) \<notin> set cs" using a by (simp_all add: hd_rev)
  then have 2: "dropWhile (\<lambda>c. c \<in> set cs) (rev s) = rev s" by (cases "rev s") auto
  show ?thesis by (simp add: py_strip_def 1 2)
qed

section \<open>The title accumulator\<close>

text \<open>
  C4, as amended. In the second program \<^verbatim>\<open>on_enter\<close> leaves the title as it is when the
  text box is empty and appends the connector and the token when it is not, whatever the
  title. In the first program \<^verbatim>\<open>on_enter\<close> does the same with \<^verbatim>\<open>_\<close>, unless the save that
  comes first raises: that happens exactly when \<^verbatim>\<open>Save Word?\<close> is ticked and there is no
  current row or the file cannot be written, and then the callback is over before the
  title update, so that the title stays as it is even for a non-empty token.
\<close>

theorem skip_or_append:
  "has_raised (on_enter_H s) =
     (saveFlag_H s \<and> \<not> (current_row_index_H s < length (lines_H s) \<and> writable_H s))
   \<and> entered_text_H (state_of (on_enter_H s)) =
     (if saveFlag_H s \<and> \<not> (current_row_index_H s < length (lines_H s) \<and> writable_H s)
      then entered_text_H s
      else if textbox_H s = [] then entered_text_H s
      else entered_text_H s @ ''_'' @ textbox_H s)
   \<and> entered_text_V (on_enter_V v) =
     (if textbox_V v = [] then entered_text_V v
      else entered_text_V v @ connector_V v @ textbox_V v)"
proof -
  have r: "has_raised (on_enter_H s) =
     (saveFlag_H s \<and> \<not> (current_row_index_H s < length (lines_H s) \<and> writable_H s))"
    by (simp only: on_enter_H_raises save_word_H_raises)
  show ?thesis
    unfolding r [symmetric]
    by (simp add: on_enter_H_title on_enter_V_title accumulate_def)
qed

text \<open>
  With the flag not set, Enter on \<^verbatim>\<open>x\<close> appends \<^verbatim>\<open>_x\<close> and Enter on the empty box appends
  nothing; with the flag set and the file writable, \<^verbatim>\<open>_9\<close> is appended.
\<close>

theorem skip_or_append_witness:
  "entered_text_H (state_of (on_enter_H (freq_mod_session\<lparr>textbox_H := ''x''\<rparr>))) = ''seed_x''
   \<and> \<not> has_raised (on_enter_H (freq_mod_session\<lparr>textbox_H := ''x''\<rparr>))
   \<and> entered_text_H (state_of (on_enter_H freq_mod_session)) = ''seed''
   \<and> entered_text_H (state_of (on_enter_H saving_session)) = ''seed_9''
   \<and> entered_text_V (on_enter_V (tests_freq_session\<lparr>textbox_V := ''PSD''\<rparr>)) = ''seed - PSD''"
proof -
  have a: "\<not> saveFlag_H freq_mod_session" "entered_text_H freq_mod_session = ''seed''"
    "textbox_H freq_mod_session = []"
    "saveFlag_H saving_session" "writable_H saving_session"
    "current_row_index_H saving_session < length (lines_H saving_session)"
    "entered_text_H saving_session = ''seed''" "textbox_H saving_session = ''9''"
    "entered_text_V tests_freq_session = ''seed''" "connector_V tests_freq_session = '' - ''"
    by code_simp+
  show ?thesis
    using skip_or_append [of "freq_mod_session\<lparr>textbox_H := ''x''\<rparr>"
        "tests_freq_session\<lparr>textbox_V := ''PSD''\<rparr>"]
      skip_or_append [of freq_mod_session v] skip_or_append [of saving_session v] a
    by simp
qed

text \<open>
  C4 as stated fails in the first program: with \<^verbatim>\<open>Save Word?\<close> ticked, Enter on the
  non-empty token \<^verbatim>\<open>9\<close> appends nothing when the file cannot be written, and Enter on
  \<^verbatim>\<open>x\<close> appends nothing when the file is empty.
\<close>

theorem failed_save_appends_nothing:
  "textbox_H locked_session = ''9''
   \<and> has_raised (on_enter_H locked_session)
   \<and> entered_text_H (mainloop_H locked_session [Return]) = ''seed''
   \<and> textbox_H empty_file_session = ''x''
   \<and> has_raised (on_enter_H empty_file_session)
   \<and> entered_text_H (mainloop_H empty_file_session [Return]) = ''seed''"
  by code_simp

text \<open>
  C5, as amended. In both programs the final title is the seed followed by the separator
  and the token, for each committed non-empty token in the order of the commits; the
  title after any part of a session is a prefix of the title after more of it, so no
  committed token is ever reordered, changed or dropped. The title before an event is a
  strict prefix of the title after it exactly when the event commits a non-empty token:
  a commit of the empty token leaves the title equal, not strictly longer.
\<close>

theorem title_only_grows:
  "entered_text_H (mainloop_H s evs) =
     entered_text_H s @
       concat (map (\<lambda>t. ''_'' @ t) (filter (\<lambda>t. t \<noteq> []) (map snd (turns_H s evs))))
   \<and> entered_text_V (mainloop_V v evs) =
     entered_text_V v @
       concat (map (\<lambda>t. connector_V v @ t) (filter (\<lambda>t. t \<noteq> []) (map snd (turns_V v evs))))
   \<and> prefix (entered_text_H (mainloop_H s evs)) (entered_text_H (mainloop_H s (evs @ rest)))
   \<and> prefix (entered_text_V (mainloop_V v evs)) (entered_text_V (mainloop_V v (evs @ rest)))
   \<and> (strict_prefix (entered_text_H s) (entered_text_H (state_of (dispatch_H s e)))
        \<longleftrightarrow> (\<exists>t. committed_H s e = Some t \<and> t \<noteq> []))
   \<and> (strict_prefix (entered_text_V v) (entered_text_V (state_of (dispatch_V v e)))
        \<longleftrightarrow> (\<exists>t. committed_V v e = Some t \<and> t \<noteq> []))"
proof -
  have h: "prefix (entered_text_H (mainloop_H s evs)) (entered_text_H (mainloop_H s (evs @ rest)))"
    by (simp add: mainloop_H_append mainloop_H_title [of "mainloop_H s evs"]
          foldl_accumulate_prefix)
  have v: "prefix (entered_text_V (mainloop_V v evs)) (entered_text_V (mainloop_V v (evs @ rest)))"
    by (simp add: mainloop_V_append mainloop_V_title [of "mainloop_V v evs"]
          foldl_accumulate_prefix)
  have sh: "strict_prefix (entered_text_H s) (entered_text_H (state_of (dispatch_H s e)))
        \<longleftrightarrow> (\<exists>t. committed_H s e = Some t \<and> t \<noteq> [])"
    by (cases "committed_H s e") (simp_all add: dispatch_H_title accumulate_strict)
  have sv: "strict_prefix (entered_text_V v) (entered_text_V (state_of (dispatch_V v e)))
        \<longleftrightarrow> (\<exists>t. committed_V v e = Some t \<and> t \<noteq> [])"
    by (cases "committed_V v e") (simp_all add: dispatch_V_title accumulate_strict)
  show ?thesis
    using h v sh sv by (simp add: mainloop_H_title mainloop_V_title foldl_accumulate)
qed

text \<open>
  C5 as stated fails: with the text box empty, \<^verbatim>\<open>on_enter\<close> leaves the title \<^verbatim>\<open>seed\<close> as it
  is, so the previous title is not a strict prefix of the new one.
\<close>

theorem empty_commit_title_not_longer:
  "entered_text_V (on_enter_V tests_freq_session) = ''seed''
   \<and> \<not> strict_prefix (entered_text_V tests_freq_session)
         (entered_text_V (on_enter_V tests_freq_session))"
  by code_simp

section \<open>Tokens and sections\<close>

text \<open>
  C3, as amended. Every turn of a session belongs to one section on display and adds to
  the title the separator and its token when the token is not empty, and nothing when it
  is empty (the section is skipped). A commit always ends its section: the session is
  over or the cursor has moved on, so no section gets a second token.
\<close>

theorem one_turn_per_section:
  "entered_text_H (mainloop_H s evs) =
     entered_text_H s @
       concat (map (\<lambda>(label, token). if token = [] then [] else ''_'' @ token) (turns_H s evs))
   \<and> entered_text_V (mainloop_V v evs') =
     entered_text_V v @
       concat (map (\<lambda>(label, token). if token = [] then [] else connector_V v @ token)
                (turns_V v evs'))
   \<and> (committed_H s e \<noteq> None \<longrightarrow>
        quit_H (state_of (dispatch_H s e))
        \<or> current_line_H s < current_line_H (state_of (dispatch_H s e)))
   \<and> (committed_V v e' \<noteq> None \<longrightarrow>
        quit_V (state_of (dispatch_V v e'))
        \<or> current_row_index_V v < current_row_index_V (state_of (dispatch_V v e')))"
proof -
  have h: "entered_text_H (mainloop_H s evs) =
     entered_text_H s @
       concat (map (\<lambda>(label, token). if token = [] then [] else ''_'' @ token) (turns_H s evs))"
    by (simp only: mainloop_H_title foldl_accumulate concat_turns)
  have v: "entered_text_V (mainloop_V v evs') =
     entered_text_V v @
       concat (map (\<lambda>(label, token). if token = [] then [] else connector_V v @ token)
                (turns_V v evs'))"
    by (simp only: mainloop_V_title foldl_accumulate concat_turns)
  show ?thesis
    using h v committed_H_advances [of s e] committed_V_advances [of v e'] by blast
qed

theorem one_turn_per_section_witness:
  "turns_H freq_mod_session [Click ''2.4'', Return] = [(''Freq'', ''2.4''), (''Mod'', [])]
   \<and> entered_text_H (mainloop_H freq_mod_session [Click ''2.4'', Return]) = ''seed_2.4''
   \<and> turns_V tests_freq_session [Return, Click ''2.4'', Click ''2437''] =
       [(''Tests'', []), (''2.4 values'', ''2437'')]
   \<and> entered_text_V (mainloop_V tests_freq_session [Return, Click ''2.4'', Click ''2437'']) =
       ''seed - 2437''
   \<and> committed_H freq_mod_session (Click ''2.4'') \<noteq> None
   \<and> current_line_H freq_mod_session
       < current_line_H (state_of (dispatch_H freq_mod_session (Click ''2.4'')))
   \<and> committed_V tests_freq_session Return \<noteq> None
   \<and> current_row_index_V tests_freq_session
       < current_row_index_V (state_of (dispatch_V tests_freq_session Return))"
proof -
  have th: "turns_H freq_mod_session [Click ''2.4'', Return] = [(''Freq'', ''2.4''), (''Mod'', [])]"
    by code_simp
  have tv: "turns_V tests_freq_session [Return, Click ''2.4'', Click ''2437''] =
       [(''Tests'', []), (''2.4 values'', ''2437'')]"
    by code_simp
  have seeds: "entered_text_H freq_mod_session = ''seed''"
    "entered_text_V tests_freq_session = ''seed''" "connector_V tests_freq_session = '' - ''"
    by code_simp+
  have ch: "committed_H freq_mod_session (Click ''2.4'') \<noteq> None"
    and cv: "committed_V tests_freq_session Return \<noteq> None"
    by code_simp+
  have qh: "\<not> quit_H (state_of (dispatch_H freq_mod_session (Click ''2.4'')))"
    and qv: "\<not> quit_V (state_of (dispatch_V tests_freq_session Return))"
    by code_simp+
  show ?thesis
    using one_turn_per_section [where s = freq_mod_session and evs = "[Click ''2.4'', Return]"
        and v = tests_freq_session and evs' = "[Return, Click ''2.4'', Click ''2437'']"
        and e = "Click ''2.4''" and e' = Return]
      th tv seeds ch cv qh qv
    by simp
qed

text \<open>
  C3 as stated fails: a section that is on display when the user presses Enter on an
  empty text box has a turn and contributes no token to the title.
\<close>

theorem skipped_section_has_no_token:
  "turns_H freq_mod_session [Return] = [(''Freq'', [])]
   \<and> entered_text_H (mainloop_H freq_mod_session [Return]) = ''seed''"
  by code_simp

section \<open>The save flag of the first program\<close>



section \<open>Sections of the first program\<close>

lemma py_strip_line:
  "body \<noteq> [] \<Longrightarrow> hd body \<notin> set cs \<Longrightarrow> last body \<notin> set cs \<Longrightarrow> set tail \<subseteq> set cs \<Longrightarrow>
     py_strip cs (body @ tail) = body"
proof -
  assume a: "body \<noteq> []" "hd body \<notin> set cs" "last body \<notin> set cs" "set tail \<subseteq> set cs"
  let ?P = "\<lambda>c. c \<in> set cs"
  have 1: "dropWhile ?P (body @ tail) = body @ tail" using a by (cases body) auto
  have 2: "dropWhile ?P (rev tail @ rev body) = dropWhile ?P (rev body)"
    using a by (intro dropWhile_append2) auto
  have "rev body \<noteq> []" "hd (rev body) \<notin> set cs" using a by (simp_all add: hd_rev)
  then have 3: "dropWhile ?P (rev body) = rev body" by (cases "rev body") auto
  show ?thesis by (simp add: py_strip_def 1 2 3)
qed




section \<open>Subsections of the second program\<close>



subsection \<open>Rectangular tables\<close>

lemma shortest_Cons: "shortest (r # rs) = (if rs = [] then length r else min (length r) (shortest rs))"
  by (cases rs) simp_all

lemma shortest_rect: "rs \<noteq> [] \<Longrightarrow> \<forall>r\<in>set rs. length r = n \<Longrightarrow> shortest rs = n"
  by (induction rs) (auto simp: shortest_Cons)

lemma shortest_le: "r \<in> set rs \<Longrightarrow> shortest rs \<le> length r"
  by (induction rs) (auto simp: shortest_Cons)

lemma length_zip_star: "length (zip_star data) = shortest data"
  by (simp add: zip_star_def)

lemma zip_star_nth: "c < shortest data \<Longrightarrow> zip_star data ! c = map (\<lambda>r. r ! c) data"
  by (simp add: zip_star_def)

lemma collect_subsection_run:
  "length vals + c \<le> length header \<Longrightarrow>
     collect_subsection (header # rest) vals c acc =
       Returned (acc @ filter (\<lambda>x. x \<noteq> [])
                         (take (length (takeWhile (\<lambda>h. h = []) (take (length vals) (drop c header)))) vals),
                 c + length (takeWhile (\<lambda>h. h = []) (take (length vals) (drop c header))))"
proof (induction vals arbitrary: c acc)
  case Nil
  show ?case by simp
next
  case (Cons val vals)
  then have c: "c < length header" by simp
  then have d: "drop c header = header ! c # drop (Suc c) header"
    by (simp add: Cons_nth_drop_Suc)
  show ?case
  proof (cases "header ! c = []")
    case True
    have "length vals + Suc c \<le> length header" using Cons.prems by simp
    from Cons.IH [OF this, of "if val \<noteq> [] then acc @ [val] else acc"] True c d
    show ?thesis by simp
  next
    case False
    have "length vals + c \<le> length header" using Cons.prems by simp
    from Cons.IH [OF this, of acc] False c d
    show ?thesis by (cases vals) simp_all
  qed
qed

lemma find_subsection_rect:
  assumes og: "og_data_V s = header # rows"
    and rect: "\<forall>r\<in>set rows. length r = length header"
    and td: "transposed_data_V s = zip_star (og_data_V s)"
    and c: "0 < current_row_index_V s" "current_row_index_V s \<le> length header"
    and i: "i < length (og_data_V s)"
      "og_data_V s ! i ! (current_row_index_V s - 1) = word"
      "\<forall>k<i. og_data_V s ! k ! (current_row_index_V s - 1) \<noteq> word"
  shows "find_subsection s word =
     Returned (sub_options (og_data_V s) i (current_row_index_V s),
               s\<lparr>current_row_index_V :=
                    current_row_index_V s + anonymous_run header (current_row_index_V s)\<rparr>)"
proof -
  let ?c = "current_row_index_V s"
  let ?n = "length header"
  have all: "\<forall>r\<in>set (header # rows). length r = ?n" using rect by simp
  have sh: "shortest (header # rows) = ?n" using all by (intro shortest_rect) simp_all
  have len: "length (transposed_data_V s) = ?n" by (simp add: td og length_zip_star sh)
  show ?thesis
  proof (cases "?c < ?n")
    case False
    with c have "?c = ?n" by simp
    then have "anonymous_run header ?c = 0" by (simp add: anonymous_run_def)
    with False show ?thesis
      by (simp add: find_subsection_def Let_def len sub_options_def og)
  next
    case True
    have row: "transposed_data_V s ! ?c = header ! ?c # map (\<lambda>r. r ! ?c) rows"
      using True by (simp add: td og zip_star_nth sh)
    have d: "drop ?c header = header ! ?c # drop (Suc ?c) header"
      using True by (simp add: Cons_nth_drop_Suc)
    show ?thesis
    proof (cases "header ! ?c = []")
      case False
      then have "anonymous_run header ?c = 0" using d by (simp add: anonymous_run_def)
      with False True row show ?thesis
        by (simp add: find_subsection_def Let_def len sub_options_def og)
    next
      case anon: True
      have prev: "item_before (transposed_data_V s) ?c = Some (map (\<lambda>r. r ! (?c - 1)) (header # rows))"
        using True c len sh by (auto simp: item_before_def td og zip_star_nth)
      have "py_index (map (\<lambda>r. r ! (?c - 1)) (og_data_V s)) word = Some i"
        unfolding py_index_first using i by simp
      then have idx: "py_index (map (\<lambda>r. r ! (?c - 1)) (header # rows)) word = Some i"
        by (simp only: og)
      have li: "length (og_data_V s ! i) = ?n"
        using all i(1) og by (metis nth_mem)
      have "length (drop ?c (og_data_V s ! i)) + ?c \<le> ?n" using li True by simp
      from collect_subsection_run [OF this, of rows "[]"]
      have col: "collect_subsection (og_data_V s) (drop ?c (og_data_V s ! i)) ?c [] =
          Returned (sub_options (og_data_V s) i ?c, ?c + anonymous_run header ?c)"
        using li by (simp add: og sub_options_def anonymous_run_def)
      show ?thesis
        using True row anon prev idx i(1) col
        by (simp add: find_subsection_def Let_def len)
    qed
  qed
qed

lemma anonymous_run_stops:
  "c + anonymous_run header c < length header \<Longrightarrow> header ! (c + anonymous_run header c) \<noteq> []"
proof -
  assume a: "c + anonymous_run header c < length header"
  let ?xs = "drop c header"
  have "length (takeWhile (\<lambda>h. h = []) ?xs) < length ?xs"
    using a by (simp add: anonymous_run_def)
  then have "\<not> (?xs ! length (takeWhile (\<lambda>h. h = []) ?xs) = [])"
    by (rule nth_length_takeWhile)
  then show ?thesis using a by (simp add: anonymous_run_def)
qed

lemma find_subsection_titled:
  assumes og: "og_data_V s = header # rows"
    and rect: "\<forall>r\<in>set rows. length r = length header"
    and td: "transposed_data_V s = zip_star (og_data_V s)"
    and t: "current_row_index_V s < length header \<longrightarrow> header ! current_row_index_V s \<noteq> []"
  shows "find_subsection s w = Returned ([], s)"
proof -
  let ?c = "current_row_index_V s"
  have all: "\<forall>r\<in>set (header # rows). length r = length header" using rect by simp
  have sh: "shortest (header # rows) = length header"
    using all by (intro shortest_rect) simp_all
  have len: "length (transposed_data_V s) = length header"
    by (simp add: td og length_zip_star sh)
  show ?thesis
  proof (cases "?c < length header")
    case False
    then show ?thesis by (simp add: find_subsection_def Let_def len)
  next
    case True
    have row: "transposed_data_V s ! ?c = header ! ?c # map (\<lambda>r. r ! ?c) rows"
      using True by (simp add: td og zip_star_nth sh)
    with True t show ?thesis by (simp add: find_subsection_def Let_def len)
  qed
qed

lemma insert_word_tail_title:
  "textbox_V s = [] \<Longrightarrow> w \<noteq> [] \<Longrightarrow>
     (altbuttonFlag_V s \<longrightarrow>
        entered_text_V (insert_word_tail s w) = entered_text_V s @ connector_V s @ w)
     \<and> (\<not> altbuttonFlag_V s \<longrightarrow>
        textbox_V (insert_word_tail s w) = w
        \<and> entered_text_V (on_enter_V (insert_word_tail s w)) =
            entered_text_V s @ connector_V s @ w)"
  by (simp add: insert_word_tail_def Let_def on_enter_V_title accumulate_def)

text \<open>
  C1, as amended. Take a table whose rows all have the length of the header row, loaded as
  \<^verbatim>\<open>run_file_reader\<close> loads it, with the cursor just behind the column of the section on
  display, and an option \<open>word\<close> of that section whose text first occurs in row \<open>i\<close>. If
  row \<open>i\<close> has non-empty cells in the untitled columns that follow the section, a click on
  \<open>word\<close> presents exactly these cells as the buttons of a section labelled \<open>word values\<close>:
  the title is untouched and the cursor stops behind the untitled columns, on the next
  titled column, which is not consumed. Selecting one of the sub-values then appends the
  sub-value to the title (at once in Alt Button mode, at the next Enter otherwise), not
  \<open>word\<close>. If row \<open>i\<close> has no such cell, \<open>word\<close> itself is appended.
\<close>

theorem subsection_expansion:
  assumes og: "og_data_V s = header # rows"
    and rect: "\<forall>r\<in>set rows. length r = length header"
    and td: "transposed_data_V s = zip_star (og_data_V s)"
    and c: "0 < current_row_index_V s" "current_row_index_V s \<le> length header"
    and i: "i < length (og_data_V s)"
      "og_data_V s ! i ! (current_row_index_V s - 1) = word"
      "\<forall>k<i. og_data_V s ! k ! (current_row_index_V s - 1) \<noteq> word"
    and w: "word \<noteq> []"
  shows
    "(sub_options (og_data_V s) i (current_row_index_V s) \<noteq> [] \<longrightarrow>
        insert_word_V s word =
          Returned (s\<lparr>textbox_V := [],
                      current_row_index_V :=
                        current_row_index_V s + anonymous_run header (current_row_index_V s),
                      colstr1_V := word @ '' values'',
                      buttons_V := sub_options (og_data_V s) i (current_row_index_V s)\<rparr>)
        \<and> (\<forall>v\<in>set (sub_options (og_data_V s) i (current_row_index_V s)).
              \<not> has_raised (insert_word_V (state_of (insert_word_V s word)) v)
              \<and> (altbuttonFlag_V s \<longrightarrow>
                   entered_text_V (state_of (insert_word_V (state_of (insert_word_V s word)) v)) =
                     entered_text_V s @ connector_V s @ v)
              \<and> (\<not> altbuttonFlag_V s \<longrightarrow>
                   textbox_V (state_of (insert_word_V (state_of (insert_word_V s word)) v)) = v
                   \<and> entered_text_V
                       (on_enter_V (state_of (insert_word_V (state_of (insert_word_V s word)) v))) =
                     entered_text_V s @ connector_V s @ v)))
     \<and> (sub_options (og_data_V s) i (current_row_index_V s) = [] \<longrightarrow>
          \<not> has_raised (insert_word_V s word)
          \<and> (altbuttonFlag_V s \<longrightarrow>
               entered_text_V (state_of (insert_word_V s word)) =
                 entered_text_V s @ connector_V s @ word)
          \<and> (\<not> altbuttonFlag_V s \<longrightarrow>
               textbox_V (state_of (insert_word_V s word)) = word
               \<and> entered_text_V (on_enter_V (state_of (insert_word_V s word))) =
                   entered_text_V s @ connector_V s @ word))"
proof -
  let ?c = "current_row_index_V s"
  let ?subs = "sub_options (og_data_V s) i ?c"
  let ?s0 = "s\<lparr>textbox_V := []\<rparr>"
  let ?s1 = "?s0\<lparr>current_row_index_V := ?c + anonymous_run header ?c\<rparr>"
  have f: "find_subsection ?s0 word = Returned (?subs, ?s1)"
    using find_subsection_rect [of ?s0 header rows i word] og rect td c i by simp
  have none: "?subs = [] \<Longrightarrow> insert_word_V s word = Returned (insert_word_tail ?s1 word)"
    by (simp add: insert_word_V_def f)
  have flt: "filter (\<lambda>w. w \<noteq> []) ?subs = ?subs" by (simp add: sub_options_def)
  let ?shown = "s\<lparr>textbox_V := [],
                   current_row_index_V := ?c + anonymous_run header ?c,
                   colstr1_V := word @ '' values'', buttons_V := ?subs\<rparr>"
  have some: "?subs \<noteq> [] \<Longrightarrow> insert_word_V s word = Returned ?shown"
    using flt
    by (simp add: insert_word_V_def f handle_subsection_def clear_buttons_V_def
          create_word_buttons_V_def)
  have pick: "insert_word_V ?shown v = Returned (insert_word_tail ?shown v)" for v
  proof -
    have e: "?shown\<lparr>textbox_V := []\<rparr> = ?shown" by (cases s) simp
    have "find_subsection ?shown v = Returned ([], ?shown)"
      using og rect td anonymous_run_stops [of ?c header]
      by (intro find_subsection_titled [of _ header rows]) simp_all
    then show ?thesis unfolding insert_word_V_def e by simp
  qed
  have t0: "v \<noteq> [] \<Longrightarrow>
      (altbuttonFlag_V s \<longrightarrow>
        entered_text_V (insert_word_tail ?shown v) = entered_text_V s @ connector_V s @ v)
     \<and> (\<not> altbuttonFlag_V s \<longrightarrow>
        textbox_V (insert_word_tail ?shown v) = v
        \<and> entered_text_V (on_enter_V (insert_word_tail ?shown v)) =
            entered_text_V s @ connector_V s @ v)" for v
    using insert_word_tail_title [of ?shown v] by simp
  have t1:
      "(altbuttonFlag_V s \<longrightarrow>
        entered_text_V (insert_word_tail ?s1 word) = entered_text_V s @ connector_V s @ word)
     \<and> (\<not> altbuttonFlag_V s \<longrightarrow>
        textbox_V (insert_word_tail ?s1 word) = word
        \<and> entered_text_V (on_enter_V (insert_word_tail ?s1 word)) =
            entered_text_V s @ connector_V s @ word)"
    using insert_word_tail_title [of ?s1 word] w by simp
  have ne: "v \<in> set ?subs \<Longrightarrow> v \<noteq> []" for v by (auto simp: sub_options_def)
  show ?thesis
  proof (cases "?subs = []")
    case True
    then show ?thesis using none t1 by simp
  next
    case False
    then show ?thesis using some pick t0 ne by simp
  qed
qed

text \<open>
  The scenario of the specification: under \<^verbatim>\<open>Freq\<close>, a click on \<^verbatim>\<open>2.4\<close> presents \<^verbatim>\<open>2412\<close> and
  \<^verbatim>\<open>2437\<close>; a click on \<^verbatim>\<open>2437\<close> then gives the title \<^verbatim>\<open>seed - 2437\<close>; a click on \<^verbatim>\<open>5.7\<close>
  gives \<^verbatim>\<open>seed - 5.7\<close> directly.
\<close>

theorem subsection_expansion_witness:
  "colstr1_V freq_section = ''Freq''
   \<and> buttons_V freq_section = [''2.4'', ''5.1'', ''5.7'']
   \<and> entered_text_V freq_section = ''seed''
   \<and> insert_word_V freq_section ''2.4'' =
        Returned (freq_section\<lparr>textbox_V := [], current_row_index_V := 4,
                   colstr1_V := ''2.4 values'', buttons_V := [''2412'', ''2437'']\<rparr>)
   \<and> entered_text_V (state_of (insert_word_V (state_of (insert_word_V freq_section ''2.4''))
                                  ''2437'')) = ''seed - 2437''
   \<and> entered_text_V (state_of (insert_word_V freq_section ''5.7'')) = ''seed - 5.7''"
proof -
  let ?header = "[''Tests'', ''Freq'', [], []]"
  let ?rows = "[[''PSD'', ''2.4'', ''2412'', ''2437''], [''PWR'', ''5.1'', ''5180'', []],
                [''OBW'', ''5.7'', [], []]]"
  have shown: "colstr1_V freq_section = ''Freq''"
    "buttons_V freq_section = [''2.4'', ''5.1'', ''5.7'']"
    "entered_text_V freq_section = ''seed''" "connector_V freq_section = '' - ''"
    "altbuttonFlag_V freq_section" "current_row_index_V freq_section = 2"
    by code_simp+
  have og: "og_data_V freq_section = ?header # ?rows" by code_simp
  have rect: "\<forall>r\<in>set ?rows. length r = length ?header" by simp
  have td: "transposed_data_V freq_section = zip_star (og_data_V freq_section)" by code_simp
  have c: "0 < current_row_index_V freq_section"
    "current_row_index_V freq_section \<le> length ?header"
    by (simp_all add: shown)
  have i1: "1 < length (og_data_V freq_section)"
    "og_data_V freq_section ! 1 ! (current_row_index_V freq_section - 1) = ''2.4''"
    "\<forall>k<1. og_data_V freq_section ! k ! (current_row_index_V freq_section - 1) \<noteq> ''2.4''"
    by (simp_all add: og shown)
  have i3: "3 < length (og_data_V freq_section)"
    "og_data_V freq_section ! 3 ! (current_row_index_V freq_section - 1) = ''5.7''"
    "\<forall>k<3. og_data_V freq_section ! k ! (current_row_index_V freq_section - 1) \<noteq> ''5.7''"
    by (simp_all add: og shown numeral_3_eq_3 less_Suc_eq)
  have s1: "sub_options (og_data_V freq_section) 1 (current_row_index_V freq_section) =
              [''2412'', ''2437'']"
    and s3: "sub_options (og_data_V freq_section) 3 (current_row_index_V freq_section) = []"
    and r: "anonymous_run ?header (current_row_index_V freq_section) = 2"
    by code_simp+
  have a: "insert_word_V freq_section ''2.4'' =
        Returned (freq_section\<lparr>textbox_V := [], current_row_index_V := 4,
                   colstr1_V := ''2.4 values'', buttons_V := [''2412'', ''2437'']\<rparr>)"
    and b: "entered_text_V (state_of (insert_word_V (state_of (insert_word_V freq_section ''2.4''))
                                  ''2437'')) = ''seed - 2437''"
    using subsection_expansion [OF og rect td c i1] s1 r shown by auto
  have d: "entered_text_V (state_of (insert_word_V freq_section ''5.7'')) = ''seed - 5.7''"
    using subsection_expansion [OF og rect td c i3] s3 shown by simp
  show ?thesis using shown a b d by simp
qed

text \<open>
  C1 as stated fails. With Alt Button off, a click on \<^verbatim>\<open>5.7\<close> moves the cursor behind the
  untitled columns without committing anything; a click on \<^verbatim>\<open>2.4\<close> after it opens no
  folder, although the row of \<^verbatim>\<open>2.4\<close> has the cells \<^verbatim>\<open>2412\<close> and \<^verbatim>\<open>2437\<close>, and Enter appends
  \<^verbatim>\<open>2.4\<close>. When two options read \<^verbatim>\<open>2.4\<close>, a click on the second, whose row holds \<^verbatim>\<open>2462\<close>,
  presents the cells of the first. And when a row is longer than the header row, the
  click raises IndexError and presents nothing.
\<close>

theorem folder_not_always_opened:
  "sub_options tests_freq_rows 1 2 = [''2412'', ''2437'']
   \<and> colstr1_V (mainloop_V tests_freq_session [ToggleAlt, Return, Click ''5.7'', Click ''2.4''])
       = ''Freq''
   \<and> buttons_V (mainloop_V tests_freq_session [ToggleAlt, Return, Click ''5.7'', Click ''2.4''])
       = [''2.4'', ''5.1'', ''5.7'']
   \<and> textbox_V (mainloop_V tests_freq_session [ToggleAlt, Return, Click ''5.7'', Click ''2.4''])
       = ''2.4''
   \<and> entered_text_V
        (mainloop_V tests_freq_session [ToggleAlt, Return, Click ''5.7'', Click ''2.4'', Return])
       = ''seed - 2.4''
   \<and> og_data_V duplicate_session ! 2 = [''2.4'', ''2462'', []]
   \<and> buttons_V (state_of (insert_word_V duplicate_session ''2.4'')) = [''2412'', ''2437'']
   \<and> has_raised (insert_word_V (run_file_reader_V [[''A'', []], [''x'', [], ''y'']] ''seed'') ''x'')"
  by code_simp

section \<open>Saving a word in the first program\<close>

lemma readlines_line: "NL \<notin> set body \<Longrightarrow> readlines (body @ NL # r) = (body @ [NL]) # readlines r"
  by (induction body) auto

lemma readlines_last: "NL \<notin> set l \<Longrightarrow> l \<noteq> [] \<Longrightarrow> readlines l = [l]"
proof (induction l)
  case Nil
  then show ?case by simp
next
  case (Cons c cs)
  then show ?case by (cases cs) auto
qed

lemma line_ok_cases:
  "line_ok l \<Longrightarrow> (\<exists>body. l = body @ [NL] \<and> NL \<notin> set body) \<or> (l \<noteq> [] \<and> NL \<notin> set l)"
proof -
  assume a: "line_ok l"
  then have ne: "l \<noteq> []" and b: "NL \<notin> set (butlast l)" by (simp_all add: line_ok_def)
  have l: "l = butlast l @ [last l]" using ne by simp
  show ?thesis
  proof (cases "last l = NL")
    case True
    with l b show ?thesis by metis
  next
    case False
    have "set l = set (butlast l) \<union> {last l}" using l by (metis list.set(1,2) set_append Un_insert_right sup_bot.right_neutral)
    with False b ne show ?thesis by auto
  qed
qed

lemma readlines_concat: "lines_ok ls \<Longrightarrow> readlines (concat ls) = ls"
proof (induction ls rule: lines_ok.induct)
  case 1
  show ?case by simp
next
  case (2 l)
  then have "line_ok l" by simp
  from line_ok_cases [OF this] show ?case
  proof
    assume "\<exists>body. l = body @ [NL] \<and> NL \<notin> set body"
    then obtain body where "l = body @ [NL]" "NL \<notin> set body" by blast
    then show ?thesis using readlines_line [of body "[]"] by simp
  next
    assume "l \<noteq> [] \<and> NL \<notin> set l"
    then show ?thesis by (simp add: readlines_last)
  qed
next
  case (3 l k ls)
  then have ok: "line_ok l" and nl: "last l = NL" and rest: "lines_ok (k # ls)" by simp_all
  from line_ok_cases [OF ok] nl obtain body where b: "l = body @ [NL]" "NL \<notin> set body"
    by (metis last_in_set)
  have "readlines (concat (l # k # ls)) = (body @ [NL]) # readlines (concat (k # ls))"
    using readlines_line [OF b(2), of "concat (k # ls)"] b(1) by simp
  with 3 rest b show ?case by simp
qed

lemma lines_ok_readlines: "lines_ok (readlines t)"
proof (induction t)
  case Nil
  show ?case by simp
next
  case (Cons c cs)
  show ?case
  proof (cases "c = NL")
    case True
    with Cons show ?thesis by (cases "readlines cs") (simp_all add: line_ok_def)
  next
    case False
    show ?thesis
    proof (cases "readlines cs")
      case Nil
      with False show ?thesis by (simp add: line_ok_def)
    next
      case (Cons l ls)
      have lok: "line_ok l" using Cons.IH Cons by (cases ls) simp_all
      then have "line_ok (c # l)" using False by (auto simp: line_ok_def)
      moreover have "last (c # l) = last l" using lok by (simp add: line_ok_def)
      ultimately show ?thesis using Cons.IH Cons False by (cases ls) simp_all
    qed
  qed
qed

lemma lines_ok_update:
  "lines_ok ls \<Longrightarrow> line_ok new \<Longrightarrow> last new = NL \<Longrightarrow> lines_ok (ls[i := new])"
proof (induction ls arbitrary: i rule: lines_ok.induct)
  case 1
  show ?case by simp
next
  case (2 l)
  then show ?case by (cases i) simp_all
next
  case (3 l k ls)
  show ?case
  proof (cases i)
    case 0
    with 3 show ?thesis by simp
  next
    case (Suc j)
    have "lines_ok ((k # ls)[j := new])" using 3 by simp
    then show ?thesis using 3 Suc by (cases j) simp_all
  qed
qed

lemma py_strip_no_newline: "line_ok l \<Longrightarrow> NL \<notin> set (py_strip [COMMA, NL] l)"
proof -
  assume ok: "line_ok l"
  obtain pre suf where d: "l = pre @ py_strip [COMMA, NL] l @ suf"
    using py_strip_decomp [of l "[COMMA, NL]"] by blast
  show ?thesis
  proof (cases "py_strip [COMMA, NL] l = []")
    case True
    then show ?thesis by simp
  next
    case False
    then have e: "last (py_strip [COMMA, NL] l) \<noteq> NL"
      using py_strip_ends [of "[COMMA, NL]" l] by auto
    from line_ok_cases [OF ok] show ?thesis
    proof
      assume "\<exists>body. l = body @ [NL] \<and> NL \<notin> set body"
      then obtain body where b: "l = body @ [NL]" "NL \<notin> set body" by blast
      have "suf \<noteq> []"
      proof
        assume "suf = []"
        then have "last l = last (py_strip [COMMA, NL] l)" using d False
          by (metis append_Nil2 last_appendR)
        with b e show False by simp
      qed
      then obtain suf' where s': "suf = suf' @ [NL]"
        using d b by (metis append_assoc last_appendR last_snoc snoc_eq_iff_butlast)
      then have "body = pre @ py_strip [COMMA, NL] l @ suf'"
        using d b by (metis append_assoc butlast_snoc)
      then have "set (py_strip [COMMA, NL] l) \<subseteq> set body" by (metis Un_iff set_append subsetI)
      with b show ?thesis by auto
    next
      assume "l \<noteq> [] \<and> NL \<notin> set l"
      moreover have "set (py_strip [COMMA, NL] l) \<subseteq> set l" using d
        by (metis Un_iff set_append subsetI)
      ultimately show ?thesis by auto
    qed
  qed
qed

lemma saved_line_ok:
  "line_ok l \<Longrightarrow> NL \<notin> set word \<Longrightarrow>
     line_ok (py_strip [COMMA, NL] l @ COMMA # word @ [NL])
     \<and> last (py_strip [COMMA, NL] l @ COMMA # word @ [NL]) = NL"
proof -
  assume a: "line_ok l" "NL \<notin> set word"
  have "butlast (py_strip [COMMA, NL] l @ COMMA # word @ [NL]) = py_strip [COMMA, NL] l @ COMMA # word"
    by (simp add: butlast_append)
  then show ?thesis using py_strip_no_newline [OF a(1)] a(2) by (simp add: line_ok_def)
qed

lemma lines_ok_nth: "lines_ok ls \<Longrightarrow> i < length ls \<Longrightarrow> line_ok (ls ! i)"
proof (induction ls arbitrary: i rule: lines_ok.induct)
  case 1
  then show ?case by simp
next
  case (2 l)
  then show ?case by simp
next
  case (3 l k ls)
  then show ?case by (cases i) simp_all
qed

lemma py_split_append: "py_split d (a @ d # b) = py_split d a @ py_split d b"
proof (induction a)
  case Nil
  show ?case by simp
next
  case (Cons c cs)
  obtain w ws where "py_split d cs = w # ws"
    using py_split_not_Nil [of d cs] by (cases "py_split d cs") auto
  with Cons show ?case by simp
qed

lemma py_split_single: "d \<notin> set w \<Longrightarrow> py_split d w = [w]"
  by (induction w) auto

lemma row_words_saved:
  assumes "py_strip [COMMA, NL] l \<noteq> []" and "word \<noteq> []"
    and "COMMA \<notin> set word" and "NL \<notin> set word"
  shows "row_words_H (py_strip [COMMA, NL] l @ COMMA # word @ [NL]) = row_words_H l @ [word]"
proof -
  let ?s = "py_strip [COMMA, NL] l"
  let ?body = "?s @ COMMA # word"
  have h: "hd ?body \<notin> set [COMMA, NL]"
    using py_strip_ends [OF assms(1)] assms(1) by simp
  have "last ?body = last word" using assms(2) by simp
  moreover have "last word \<in> set word" using assms(2) by simp
  ultimately have l: "last ?body \<notin> set [COMMA, NL]" using assms(3,4) by auto
  have "py_strip [COMMA, NL] (?body @ [NL]) = ?body"
    using h l by (intro py_strip_line) simp_all
  then have "row_words_H (?s @ COMMA # word @ [NL]) = py_split COMMA (?s @ COMMA # word)"
    by (simp add: row_words_H_def)
  also have "\<dots> = py_split COMMA ?s @ [word]"
    using assms(3) by (simp add: py_split_append py_split_single)
  finally show ?thesis by (simp add: row_words_H_def)
qed

lemma lines_H_run_file_reader:
  "lines_H (state_of (run_file_reader_H text w seed)) = readlines text"
  by (simp add: run_file_reader_H_def Let_def split: list.splits)

text \<open>
  C2, as amended. Let the lines of the session be those of a file as \<^verbatim>\<open>readlines\<close> returns
  them, the current row be one of them, the file be writable and the word hold no newline.
  Then \<^verbatim>\<open>save_word\<close> returns, and reloading the file it wrote gives the lines of the session
  in their order, every line but the current one unchanged, and in place of the current
  line its text without leading and trailing commas and newlines, then a comma, the word
  and a newline. If moreover the word is neither empty nor contains a comma, and the
  current line has a character that is neither comma nor newline, the cells of the
  reloaded row are the cells of the row as it was, followed by the word as one new cell.
\<close>

theorem save_then_reload:
  assumes loaded: "lines_H s = readlines text"
    and cur: "current_row_index_H s < length (lines_H s)"
    and wr: "writable_H s"
    and nl: "NL \<notin> set word"
  shows "\<not> has_raised (save_word_H s word)
    \<and> lines_H (state_of (run_file_reader_H (file_H (state_of (save_word_H s word))) w seed)) =
        (lines_H s)[current_row_index_H s :=
           py_strip [COMMA, NL] (lines_H s ! current_row_index_H s) @ COMMA # word @ [NL]]
    \<and> (\<forall>j<length (lines_H s). j \<noteq> current_row_index_H s \<longrightarrow>
          lines_H (state_of (run_file_reader_H (file_H (state_of (save_word_H s word))) w seed)) ! j =
            lines_H s ! j)
    \<and> (word \<noteq> [] \<and> COMMA \<notin> set word
         \<and> py_strip [COMMA, NL] (lines_H s ! current_row_index_H s) \<noteq> [] \<longrightarrow>
          row_words_H
            (lines_H (state_of (run_file_reader_H (file_H (state_of (save_word_H s word))) w seed))
               ! current_row_index_H s) =
            row_words_H (lines_H s ! current_row_index_H s) @ [word])"
proof -
  let ?i = "current_row_index_H s"
  let ?new = "py_strip [COMMA, NL] (lines_H s ! ?i) @ COMMA # word @ [NL]"
  let ?ls = "(lines_H s)[?i := ?new]"
  have ok: "lines_ok (lines_H s)" by (simp add: loaded lines_ok_readlines)
  have "line_ok (lines_H s ! ?i)" using ok cur by (rule lines_ok_nth)
  then have "line_ok ?new \<and> last ?new = NL" using nl by (rule saved_line_ok)
  then have "lines_ok ?ls" using ok by (simp add: lines_ok_update)
  then have rt: "readlines (concat ?ls) = ?ls" by (rule readlines_concat)
  have r: "\<not> has_raised (save_word_H s word)"
    and f: "file_H (state_of (save_word_H s word)) = concat ?ls"
    using cur wr by (simp_all add: save_word_H_def Let_def writelines_def)
  have re: "lines_H (state_of (run_file_reader_H (file_H (state_of (save_word_H s word))) w seed)) = ?ls"
    by (simp only: lines_H_run_file_reader f rt)
  have cells: "word \<noteq> [] \<and> COMMA \<notin> set word \<and> py_strip [COMMA, NL] (lines_H s ! ?i) \<noteq> [] \<longrightarrow>
      row_words_H (?ls ! ?i) = row_words_H (lines_H s ! ?i) @ [word]"
    using cur nl by (simp add: row_words_saved)
  have others: "\<forall>j<length (lines_H s). j \<noteq> ?i \<longrightarrow> ?ls ! j = lines_H s ! j" by simp
  show ?thesis using r cells others unfolding re by blast
qed

text \<open>Saving \<^verbatim>\<open>9\<close> on the row \<^verbatim>\<open>Freq,2.4,5.1\<close> and reloading.\<close>

theorem save_then_reload_witness:
  "lines_H (state_of (run_file_reader_H
       (file_H (state_of (save_word_H freq_mod_session ''9''))) True ''seed'')) =
     [''Freq,2.4,5.1,9'' @ [NL], ''Mod,OFDM,QAM'' @ [NL]]
   \<and> row_words_H (lines_H (state_of (run_file_reader_H
       (file_H (state_of (save_word_H freq_mod_session ''9''))) True ''seed'')) ! 0) =
     [''Freq'', ''2.4'', ''5.1'', ''9'']"
proof -
  have a: "lines_H freq_mod_session = readlines freq_mod_file"
    "current_row_index_H freq_mod_session < length (lines_H freq_mod_session)"
    "writable_H freq_mod_session" "NL \<notin> set ''9''"
    by code_simp+
  have b: "current_row_index_H freq_mod_session = 0"
    "lines_H freq_mod_session = [''Freq,2.4,5.1'' @ [NL], ''Mod,OFDM,QAM'' @ [NL]]"
    "py_strip [COMMA, NL] (''Freq,2.4,5.1'' @ [NL]) = ''Freq,2.4,5.1''"
    "row_words_H (''Freq,2.4,5.1'' @ [NL]) = [''Freq'', ''2.4'', ''5.1'']"
    by code_simp+
  note t = save_then_reload [OF a, of True "''seed''"]
  have 1: "lines_H (state_of (run_file_reader_H
       (file_H (state_of (save_word_H freq_mod_session ''9''))) True ''seed'')) =
     [''Freq,2.4,5.1,9'' @ [NL], ''Mod,OFDM,QAM'' @ [NL]]"
    using t [THEN conjunct2, THEN conjunct1] b by simp
  have 2: "row_words_H (lines_H (state_of (run_file_reader_H
       (file_H (state_of (save_word_H freq_mod_session ''9''))) True ''seed'')) ! 0) =
     [''Freq'', ''2.4'', ''5.1'', ''9'']"
    using t [THEN conjunct2, THEN conjunct2, THEN conjunct2] b by simp
  show ?thesis using 1 2 by (rule conjI)
qed

text \<open>
  C2 as stated fails. After saving and reloading, the word \<^verbatim>\<open>2,4\<close> has become two cells;
  the empty word has added no cell to the row that the program reads; and on a blank
  current row, whose only cell is the empty label, the saved word \<^verbatim>\<open>w\<close> is the label, not a
  cell added behind it.
\<close>

theorem save_is_not_always_a_new_cell:
  "row_words_H (lines_H (state_of (run_file_reader_H
       (file_H (state_of (save_word_H freq_mod_session ''2,4''))) True ''seed'')) ! 0) =
     [''Freq'', ''2.4'', ''5.1'', ''2'', ''4'']
   \<and> row_words_H (lines_H (state_of (run_file_reader_H
       (file_H (state_of (save_word_H freq_mod_session []))) True ''seed'')) ! 0) =
     [''Freq'', ''2.4'', ''5.1'']
   \<and> row_words_H (lines_H blank_row_session ! 0) = [[]]
   \<and> row_words_H (lines_H (state_of (run_file_reader_H
       (file_H (state_of (save_word_H blank_row_session ''w''))) True ''seed'')) ! 0) =
     [''w'']"
  by code_simp

section \<open>Rows of unequal length\<close>

lemma run_file_reader_H_returns: "\<not> has_raised (run_file_reader_H text w seed)"
proof (cases "readlines text")
  case Nil
  then show ?thesis by (simp add: run_file_reader_H_def Let_def)
next
  case (Cons l ls)
  obtain t ws where "row_words_H l = t # ws"
    using row_words_H_not_Nil [of l] by (cases "row_words_H l") auto
  with Cons show ?thesis by (simp add: run_file_reader_H_def Let_def)
qed

lemma row_words_H_single:
  "COMMA \<notin> set l \<Longrightarrow> NL \<notin> set l \<Longrightarrow> row_words_H (l @ [NL]) = [l]"
proof (cases "l = []")
  case True
  then show ?thesis by (simp add: row_words_H_def py_strip_def)
next
  case False
  assume a: "COMMA \<notin> set l" "NL \<notin> set l"
  have "hd l \<in> set l" "last l \<in> set l" using False by simp_all
  with a have "hd l \<notin> set [COMMA, NL]" "last l \<notin> set [COMMA, NL]" by auto
  then have "py_strip [COMMA, NL] (l @ [NL]) = l"
    using False by (intro py_strip_line) simp_all
  with a show ?thesis by (simp add: row_words_H_def py_split_single)
qed

lemma zip_star_empty_row: "[] \<in> set data \<Longrightarrow> zip_star data = []"
  using shortest_le [of "[]" data] by (simp add: zip_star_def)

lemma update_buttons_V_at_end:
  "length (transposed_data_V v) \<le> current_row_index_V v \<Longrightarrow> quit_V (update_buttons_V v)"
  by (simp add: update_buttons_V_def)

text \<open>
  C8, as amended. In the first program no row makes \<^verbatim>\<open>update_buttons\<close> or the start of the
  session raise: a blank line is a section with an empty label and no options, a line
  with one cell a section without options. In the second program loading does not raise
  either, but the transposed table has only as many rows as the shortest row of the file
  has cells: the cells that longer rows have beyond that are dropped, and an empty row
  leaves no section at all. Once the cursor is behind the transposed table,
  \<^verbatim>\<open>update_buttons\<close> ends the session.
\<close>

theorem ragged_rows:
  "\<not> has_raised (update_buttons_H s)
   \<and> \<not> has_raised (run_file_reader_H text w seed)
   \<and> row_words_H [NL] = [[]]
   \<and> (COMMA \<notin> set l \<and> NL \<notin> set l \<longrightarrow> row_words_H (l @ [NL]) = [l])
   \<and> length (zip_star data) = shortest data
   \<and> (\<forall>r\<in>set data. shortest data \<le> length r)
   \<and> (\<forall>c<shortest data. zip_star data ! c = map (\<lambda>r. r ! c) data)
   \<and> ([] \<in> set data \<longrightarrow> zip_star data = [])
   \<and> (length (transposed_data_V v) \<le> current_row_index_V v \<longrightarrow> quit_V (update_buttons_V v))"
proof -
  have a: "\<not> has_raised (update_buttons_H s)" by (simp add: update_buttons_H_cases)
  have b: "row_words_H [NL] = [[]]" by (simp add: row_words_H_def py_strip_def)
  show ?thesis
    using a b run_file_reader_H_returns row_words_H_single [of l]
      length_zip_star [of data] shortest_le [of _ data] zip_star_nth [of _ data]
      zip_star_empty_row [of data] update_buttons_V_at_end [of v]
    by blast
qed

theorem ragged_rows_witness:
  "row_words_H (''Freq'' @ [NL]) = [''Freq'']
   \<and> shortest [[''Tests'', ''Freq''], [''PSD'']] = 1
   \<and> zip_star [[''Tests'', ''Freq''], [''PSD'']] ! 0 = [''Tests'', ''PSD'']
   \<and> zip_star [[''Tests'', ''Freq''], []] = []
   \<and> quit_V (update_buttons_V (state_of (insert_word_V freq_section ''2.4'')))"
proof -
  let ?d = "[[''Tests'', ''Freq''], [''PSD'']]"
  let ?v = "state_of (insert_word_V freq_section ''2.4'')"
  note t = ragged_rows [where l = "''Freq''" and data = ?d and v = ?v]
  note u = ragged_rows [where data = "[[''Tests'', ''Freq''], []]"]
  have c: "COMMA \<notin> set ''Freq'' \<and> NL \<notin> set ''Freq''" by simp
  have s: "shortest ?d = 1" by simp
  have e: "length (transposed_data_V ?v) \<le> current_row_index_V ?v" by code_simp
  have 1: "row_words_H (''Freq'' @ [NL]) = [''Freq'']" using t c by blast
  have "\<forall>c<shortest ?d. zip_star ?d ! c = map (\<lambda>r. r ! c) ?d" using t by blast
  then have 2: "zip_star ?d ! 0 = [''Tests'', ''PSD'']" using s by simp
  have 3: "zip_star [[''Tests'', ''Freq''], []] = []" using u by simp
  have 4: "quit_V (update_buttons_V ?v)" using t e by blast
  show ?thesis using 1 2 3 4 s by blast
qed

text \<open>
  C8 as stated fails in the second program. With the rows \<^verbatim>\<open>Tests,Freq\<close> and \<^verbatim>\<open>PSD\<close> the
  column \<^verbatim>\<open>Freq\<close> is dropped and the session ends after \<^verbatim>\<open>Tests\<close>; with an empty second row no
  section is left; and a row longer than the header makes \<^verbatim>\<open>insert_word\<close> raise IndexError
  when it reads the header beyond its end.
\<close>

theorem short_row_drops_a_column:
  "transposed_data_V (run_file_reader_V [[''Tests'', ''Freq''], [''PSD'']] ''seed'') =
     [[''Tests'', ''PSD'']]
   \<and> quit_V (mainloop_V (run_file_reader_V [[''Tests'', ''Freq''], [''PSD'']] ''seed'') [Return])
   \<and> transposed_data_V (run_file_reader_V [[''Tests'', ''Freq''], []] ''seed'') = []
   \<and> has_raised (insert_word_V (run_file_reader_V [[''A'', []], [''x'', [], ''y'']] ''seed'') ''x'')"
  by code_simp

section \<open>Columns without a title\<close>

text \<open>
  What \<^verbatim>\<open>update_buttons\<close> of the second program presents: the first row at or behind the
  cursor whose label is not empty, after rows with an empty label only; and when it ends
  the session, there is no such row.
\<close>

lemma skip_rows_Some:
  "skip_rows td c = (k, Some row) \<Longrightarrow>
     c \<le> k \<and> k < length td \<and> td ! k = row \<and> row \<noteq> [] \<and> hd row \<noteq> []
     \<and> (\<forall>j. c \<le> j \<and> j < k \<longrightarrow> (\<exists>ws. td ! j = [] # ws))"
proof (induction td c rule: skip_rows.induct)
  case (1 td c)
  show ?case
  proof (cases "c < length td")
    case False
    with "1.prems" show ?thesis by (simp add: skip_rows.simps [of td c])
  next
    case True
    show ?thesis
    proof (cases "td ! c")
      case Nil
      with True "1.prems" show ?thesis by (simp add: skip_rows.simps [of td c])
    next
      case (Cons w ws)
      show ?thesis
      proof (cases "w = []")
        case False
        with True Cons "1.prems" have "k = c \<and> row = w # ws"
          by (simp add: skip_rows.simps [of td c])
        with True Cons False show ?thesis by auto
      next
        case e: True
        with True Cons "1.prems" have r: "skip_rows td (Suc c) = (k, Some row)"
          by (simp add: skip_rows.simps [of td c])
        from "1.IH" [OF True Cons e r]
        have ih: "Suc c \<le> k \<and> k < length td \<and> td ! k = row \<and> row \<noteq> [] \<and> hd row \<noteq> []
          \<and> (\<forall>j. Suc c \<le> j \<and> j < k \<longrightarrow> (\<exists>ws. td ! j = [] # ws))" .
        have "\<exists>ws. td ! j = [] # ws" if "c \<le> j" "j < k" for j
        proof (cases "j = c")
          case True
          with Cons e show ?thesis by simp
        next
          case False
          with that ih show ?thesis by simp
        qed
        with ih show ?thesis by simp
      qed
    qed
  qed
qed

lemma skip_rows_None:
  "skip_rows td c = (k, None) \<Longrightarrow>
     \<not> (\<exists>j l ws. c \<le> j \<and> j < length td \<and> td ! j = l # ws \<and> l \<noteq> []
          \<and> (\<forall>m. c \<le> m \<and> m < j \<longrightarrow> (\<exists>ws. td ! m = [] # ws)))"
proof (induction td c rule: skip_rows.induct)
  case (1 td c)
  show ?case
  proof (cases "c < length td")
    case False
    then show ?thesis by auto
  next
    case True
    show ?thesis
    proof (cases "td ! c")
      case Nil
      show ?thesis
      proof
        assume "\<exists>j l ws. c \<le> j \<and> j < length td \<and> td ! j = l # ws \<and> l \<noteq> []
          \<and> (\<forall>m. c \<le> m \<and> m < j \<longrightarrow> (\<exists>ws. td ! m = [] # ws))"
        then obtain j l ws where j: "c \<le> j" "td ! j = l # ws"
          "\<forall>m. c \<le> m \<and> m < j \<longrightarrow> (\<exists>ws. td ! m = [] # ws)" by blast
        show False
        proof (cases "j = c")
          case True
          with j Nil show False by simp
        next
          case False
          with j have "\<exists>ws. td ! c = [] # ws" by simp
          with Nil show False by simp
        qed
      qed
    next
      case (Cons w ws)
      show ?thesis
      proof (cases "w = []")
        case False
        with True Cons "1.prems" show ?thesis by (simp add: skip_rows.simps [of td c])
      next
        case e: True
        with True Cons "1.prems" have r: "skip_rows td (Suc c) = (k, None)"
          by (simp add: skip_rows.simps [of td c])
        note ih = "1.IH" [OF True Cons e r]
        show ?thesis
        proof
          assume "\<exists>j l ws. c \<le> j \<and> j < length td \<and> td ! j = l # ws \<and> l \<noteq> []
            \<and> (\<forall>m. c \<le> m \<and> m < j \<longrightarrow> (\<exists>ws. td ! m = [] # ws))"
          then obtain j l vs where j: "c \<le> j" "j < length td" "td ! j = l # vs" "l \<noteq> []"
            "\<forall>m. c \<le> m \<and> m < j \<longrightarrow> (\<exists>ws. td ! m = [] # ws)" by blast
          have "j \<noteq> c" using j Cons e by auto
          with j have sc: "Suc c \<le> j" by simp
          have "\<forall>m. Suc c \<le> m \<and> m < j \<longrightarrow> (\<exists>ws. td ! m = [] # ws)"
            using j(5) by auto
          with j sc have "\<exists>j l ws. Suc c \<le> j \<and> j < length td \<and> td ! j = l # ws \<and> l \<noteq> []
            \<and> (\<forall>m. Suc c \<le> m \<and> m < j \<longrightarrow> (\<exists>ws. td ! m = [] # ws))" by blast
          with ih show False by blast
        qed
      qed
    qed
  qed
qed

lemma update_buttons_V_skips:
  "\<not> quit_V (update_buttons_V s) \<Longrightarrow>
     \<exists>k ws. current_row_index_V s \<le> k \<and> k < length (transposed_data_V s)
       \<and> transposed_data_V s ! k = colstr1_V (update_buttons_V s) # ws
       \<and> colstr1_V (update_buttons_V s) \<noteq> []
       \<and> buttons_V (update_buttons_V s) = filter (\<lambda>w. w \<noteq> []) ws
       \<and> current_row_index_V (update_buttons_V s) = Suc k
       \<and> (\<forall>j. current_row_index_V s \<le> j \<and> j < k \<longrightarrow> (\<exists>ws. transposed_data_V s ! j = [] # ws))"
proof -
  assume q: "\<not> quit_V (update_buttons_V s)"
  have lt: "current_row_index_V s < length (transposed_data_V s)"
    using q by (cases "current_row_index_V s < length (transposed_data_V s)")
      (simp_all add: update_buttons_V_def)
  obtain k r where sk: "skip_rows (transposed_data_V s) (current_row_index_V s) = (k, r)"
    by (cases "skip_rows (transposed_data_V s) (current_row_index_V s)")
  show ?thesis
  proof (cases r)
    case None
    with q lt sk show ?thesis by (simp add: update_buttons_V_def)
  next
    case (Some row)
    from skip_rows_Some [OF sk [unfolded Some]]
    have p: "current_row_index_V s \<le> k" "k < length (transposed_data_V s)"
      "transposed_data_V s ! k = row" "row \<noteq> []" "hd row \<noteq> []"
      "\<forall>j. current_row_index_V s \<le> j \<and> j < k \<longrightarrow> (\<exists>ws. transposed_data_V s ! j = [] # ws)"
      by simp_all
    have u: "update_buttons_V s =
        (create_word_buttons_V ((clear_buttons_V s)\<lparr>colstr1_V := hd row\<rparr>) (tl row))
          \<lparr>current_row_index_V := Suc k\<rparr>"
      using lt sk Some by (simp add: update_buttons_V_def)
    have "row = hd row # tl row" using p(4) by simp
    with p show ?thesis
      unfolding u by (intro exI [of _ k] exI [of _ "tl row"])
        (simp add: create_word_buttons_V_def clear_buttons_V_def)
  qed
qed

lemma update_buttons_V_ends:
  assumes "quit_V (update_buttons_V s)" and "\<not> quit_V s"
  shows "\<not> (\<exists>j l ws. current_row_index_V s \<le> j \<and> j < length (transposed_data_V s)
           \<and> transposed_data_V s ! j = l # ws \<and> l \<noteq> []
           \<and> (\<forall>m. current_row_index_V s \<le> m \<and> m < j \<longrightarrow>
                 (\<exists>ws. transposed_data_V s ! m = [] # ws)))"
proof (cases "current_row_index_V s < length (transposed_data_V s)")
  case False
  then show ?thesis by auto
next
  case True
  obtain k r where sk: "skip_rows (transposed_data_V s) (current_row_index_V s) = (k, r)"
    by (cases "skip_rows (transposed_data_V s) (current_row_index_V s)")
  show ?thesis
  proof (cases r)
    case None
    with sk show ?thesis using skip_rows_None by blast
  next
    case (Some row)
    with True sk assms show ?thesis
      by (simp add: update_buttons_V_def create_word_buttons_V_def clear_buttons_V_def)
  qed
qed

text \<open>
  C7. The claim is that a column with an empty header is never presented as a top-level
  section. \<^verbatim>\<open>update_buttons\<close> keeps to it, as the two lemmas above say, but
  \<^verbatim>\<open>run_file_reader\<close> puts the first column on display without that test: when the first
  header cell is empty, the column is the first section, with an empty label and its
  cells as buttons.
\<close>

theorem untitled_first_column_is_presented:
  "colstr1_V (run_file_reader_V [[[], ''Tests''], [''x'', ''PSD'']] ''seed'') = []
   \<and> buttons_V (run_file_reader_V [[[], ''Tests''], [''x'', ''PSD'']] ''seed'') = [''x'']
   \<and> \<not> quit_V (run_file_reader_V [[[], ''Tests''], [''x'', ''PSD'']] ''seed'')"
  by code_simp

end